theory Spec2Isabelle
  imports Main "HOL-Library.Word"
begin

unbundle bit_operations_syntax

section \<open>Results of the C functions\<close>

text \<open>
  The table of \<^verbatim>\<open>thash_impl.h\<close> is a C macro template: \<^verbatim>\<open>TKEYTYPE\<close>, \<^verbatim>\<open>TVALTYPE\<close>,
  \<^verbatim>\<open>TKEYHASH\<close> and \<^verbatim>\<open>TKEYEQUAL\<close> are supplied by the including file. Here the key and
  value types are the type variables \<open>'k\<close> and \<open>'v\<close>, and the two macros are the function
  parameters \<open>hashf :: 'k \<Rightarrow> 32 word\<close> (the cast to \<^verbatim>\<open>uint32_t\<close>) and
  \<open>eqf :: 'k \<Rightarrow> 'k \<Rightarrow> bool\<close> of every operation. The prefix \<open>thash\<close> stands for \<^verbatim>\<open>TNAME\<close>.

  A C function either runs forever (\<open>None\<close>), stops abnormally (\<open>Some (Inl e)\<close>: a failed
  \<^verbatim>\<open>assert\<close>, a read outside the entry array, a signed overflow) or returns
  (\<open>Some (Inr x)\<close>). Failure of \<^verbatim>\<open>calloc\<close> is not modelled.
\<close>

datatype error = AssertFailed | OutOfBounds | IntOverflow

type_synonym 'a res = "(error + 'a) option"

definition ret :: "'a \<Rightarrow> 'a res" where
  "ret x = Some (Inr x)"

definition abort :: "error \<Rightarrow> 'a res" where
  "abort e = Some (Inl e)"

definition rbind :: "'a res \<Rightarrow> ('a \<Rightarrow> 'b res) \<Rightarrow> 'b res" where
  "rbind m f = (case m of None \<Rightarrow> None | Some (Inl e) \<Rightarrow> Some (Inl e) | Some (Inr x) \<Rightarrow> f x)"

lemma rbind_mono [partial_function_mono]:
  assumes "mono_option B" and "\<And>y. mono_option (\<lambda>f. C y f)"
  shows "mono_option (\<lambda>f. rbind (B f) (\<lambda>y. C y f))"
proof -
  have eq: "\<And>m g. rbind m g = Option.bind m (\<lambda>r. case r of Inl e \<Rightarrow> Some (Inl e) | Inr x \<Rightarrow> g x)"
    by (auto simp: rbind_def split: option.splits sum.splits)
  show ?thesis
    unfolding eq
  proof (rule bind_mono [OF assms(1)])
    fix y
    show "mono_option (\<lambda>f. case y of Inl e \<Rightarrow> Some (Inl e) | Inr x \<Rightarrow> C x f)"
      by (cases y) (simp_all add: assms(2) option.const_mono)
  qed
qed

record ('k, 'v) entry =
  valid :: "8 word"
  key :: 'k
  val :: 'v

record ('k, 'v) thash =
  entries :: "('k, 'v) entry list"
  nentries :: int
  size_f :: int

text \<open>
  The fields \<^verbatim>\<open>nentries\<close> and \<^verbatim>\<open>size\<close> are C \<^verbatim>\<open>int\<close>s, taken to be 32 bits wide, and are
  modelled as mathematical integers. The two multiplications of \<^verbatim>\<open>create_capacity\<close>
  (\<^verbatim>\<open>4*capacity\<close> and \<^verbatim>\<open>nentries *= 2\<close>) can leave the range of \<^verbatim>\<open>int\<close>, which is undefined
  behaviour in C; the model stops with \<open>IntOverflow\<close> there, so that such a call returns
  nothing. The remaining arithmetic on these fields (\<^verbatim>\<open>size++\<close>,
  \<^verbatim>\<open>size--\<close>, \<^verbatim>\<open>2*size\<close>, \<^verbatim>\<open>size + 1\<close>, \<^verbatim>\<open>nentries - 1\<close>) is written without a check: it
  stays in range whenever \<open>0 \<le> size \<le> nentries \<le> 2 ^ 30\<close>, which the invariant
  \<open>well_formed\<close> below gives. The probe index \<^verbatim>\<open>entry_idx\<close> is a \<^verbatim>\<open>uint32_t\<close>, a \<open>32 word\<close>;
  every read or write of \<^verbatim>\<open>entries[i]\<close> with \<open>i\<close> outside the allocated array stops with
  \<open>OutOfBounds\<close>. \<^verbatim>\<open>calloc\<close> gives entries whose bytes are all zero, written \<open>0\<close> for the
  key and the value (hence the sort \<open>zero\<close>).
\<close>

definition INT_MAX :: int where
  "INT_MAX = 2147483647"

definition INT_MIN :: int where
  "INT_MIN = - 2147483648"

partial_function (option) create_capacity_loop :: "int \<Rightarrow> int \<Rightarrow> int res" where
  "create_capacity_loop n target =
     (if n < target then
        (if n * 2 < INT_MIN \<or> INT_MAX < n * 2 then abort IntOverflow
         else create_capacity_loop (n * 2) target)
      else ret n)"

definition zero_entry :: "('k::zero, 'v::zero) entry" where
  "zero_entry = \<lparr>valid = 0, key = 0, val = 0\<rparr>"

definition thash_create_capacity :: "int \<Rightarrow> ('k::zero, 'v::zero) thash res" where
  "thash_create_capacity capacity =
     (if 4 * capacity < INT_MIN \<or> INT_MAX < 4 * capacity then abort IntOverflow
      else
        let target = (if 4 * capacity < 8 then 8 else 4 * capacity) in
        rbind (if target AND (target - 1) \<noteq> 0 then create_capacity_loop 8 target else ret target)
          (\<lambda>n.
             if n AND (n - 1) \<noteq> 0 then abort AssertFailed
             else ret \<lparr>entries = replicate (nat n) zero_entry,
                       nentries = n, size_f = 0\<rparr>))"

definition thash_create :: "('k::zero, 'v::zero) thash res" where
  "thash_create = thash_create_capacity 8"

partial_function (option) probe ::
  "('k \<Rightarrow> 'k \<Rightarrow> bool) \<Rightarrow> ('k, 'v) thash \<Rightarrow> 'k \<Rightarrow> 32 word \<Rightarrow> (32 word \<times> bool) res" where
  "probe eqf h k idx =
     (if unat idx < length (entries h) then
        (if valid (entries h ! unat idx) \<noteq> 0 then
           (if eqf k (key (entries h ! unat idx)) then ret (idx, True)
            else probe eqf h k ((idx + 1) AND word_of_int (nentries h - 1)))
         else ret (idx, False))
      else abort OutOfBounds)"

function reinsert_loop ::
  "(('k, 'v) thash \<Rightarrow> 'k \<Rightarrow> 'v \<Rightarrow> (('k, 'v) thash \<times> int \<times> ('k \<times> 'v) option) res) \<Rightarrow>
   ('k, 'v) thash \<Rightarrow> nat \<Rightarrow> ('k, 'v) thash \<Rightarrow> ('k, 'v) thash res" where
  "reinsert_loop P h i newhash =
     (if int i < nentries h then
        (if i < length (entries h) then
           (if valid (entries h ! i) \<noteq> 0 then
              rbind (P newhash (key (entries h ! i)) (val (entries h ! i)))
                (\<lambda>(newhash', r, old).
                   if r \<noteq> 0 then abort AssertFailed
                   else reinsert_loop P h (i + 1) newhash')
            else reinsert_loop P h (i + 1) newhash)
         else abort OutOfBounds)
      else ret newhash)"
  by pat_completeness auto
termination
  by (relation "measure (\<lambda>(P, h, i, nh). nat (nentries h) - i)") auto

declare reinsert_loop.simps [simp del]


lemma reinsert_loop_mono [partial_function_mono]:
  assumes "\<And>nh k v. mono_option (\<lambda>f. P f nh k v)"
  shows "mono_option (\<lambda>f. reinsert_loop (P f) h i newhash)"
proof (induction "nat (nentries h) - i" arbitrary: i newhash rule: less_induct)
  case less
  have IH: "mono_option (\<lambda>f. reinsert_loop (P f) h (i + 1) nh)" if "int i < nentries h" for nh
    using that by (intro less) linarith
  show ?case
  proof (cases "int i < nentries h")
    case True
    show ?thesis
      unfolding reinsert_loop.simps [of _ h i newhash] case_prod_beta
      using True by (auto intro!: partial_function_mono assms IH simp: abort_def)
  next
    case False
    then show ?thesis
      unfolding reinsert_loop.simps [of _ h i newhash]
      by (simp add: option.const_mono)
  qed
qed

partial_function (option) thash_put ::
  "('k \<Rightarrow> 32 word) \<Rightarrow> ('k \<Rightarrow> 'k \<Rightarrow> bool) \<Rightarrow> ('k::zero, 'v::zero) thash \<Rightarrow> 'k \<Rightarrow> 'v \<Rightarrow>
   (('k, 'v) thash \<times> int \<times> ('k \<times> 'v) option) res" where
  "thash_put hashf eqf h k v =
     rbind (probe eqf h k (hashf k AND word_of_int (nentries h - 1)))
       (\<lambda>(idx, found).
          if found then
            ret (h\<lparr>entries := (entries h)[unat idx := (entries h ! unat idx)\<lparr>key := k, val := v\<rparr>]\<rparr>,
                 1, Some (key (entries h ! unat idx), val (entries h ! unat idx)))
          else
            let h1 = h\<lparr>entries := (entries h)[unat idx := \<lparr>valid = 1, key = k, val = v\<rparr>],
                       size_f := size_f h + 1\<rparr>
            in if nentries h1 < 2 * size_f h1 then
                 rbind (thash_create_capacity (size_f h1 + 1))
                   (\<lambda>newhash.
                      rbind (reinsert_loop (thash_put hashf eqf) h1 0 newhash)
                        (\<lambda>newhash'. ret (newhash', 0, None)))
               else ret (h1, 0, None))"

partial_function (option) remove_loop ::
  "('k \<Rightarrow> 32 word) \<Rightarrow> ('k \<Rightarrow> 'k \<Rightarrow> bool) \<Rightarrow> ('k::zero, 'v::zero) thash \<Rightarrow> 32 word \<Rightarrow>
   ('k, 'v) thash res" where
  "remove_loop hashf eqf h idx =
     (if unat idx < length (entries h) then
        (if valid (entries h ! unat idx) \<noteq> 0 then
           rbind (thash_put hashf eqf
                    (h\<lparr>entries := (entries h)[unat idx := (entries h ! unat idx)\<lparr>valid := 0\<rparr>],
                       size_f := size_f h - 1\<rparr>)
                    (key (entries h ! unat idx)) (val (entries h ! unat idx)))
             (\<lambda>(h', r, old).
                if r \<noteq> 0 then abort AssertFailed
                else remove_loop hashf eqf h' ((idx + 1) AND word_of_int (nentries h' - 1)))
         else ret h)
      else abort OutOfBounds)"

definition thash_remove ::
  "('k \<Rightarrow> 32 word) \<Rightarrow> ('k \<Rightarrow> 'k \<Rightarrow> bool) \<Rightarrow> ('k::zero, 'v::zero) thash \<Rightarrow> 'k \<Rightarrow>
   (('k, 'v) thash \<times> int \<times> ('k \<times> 'v) option) res" where
  "thash_remove hashf eqf h k =
     rbind (probe eqf h k (hashf k AND word_of_int (nentries h - 1)))
       (\<lambda>(idx, found).
          if found then
            let h1 = h\<lparr>entries := (entries h)[unat idx := (entries h ! unat idx)\<lparr>valid := 0\<rparr>],
                       size_f := size_f h - 1\<rparr>
            in rbind (remove_loop hashf eqf h1 ((idx + 1) AND word_of_int (nentries h1 - 1)))
                 (\<lambda>h2. ret (h2, 1, Some (key (entries h ! unat idx), val (entries h ! unat idx))))
          else ret (h, 0, None))"

definition thash_get ::
  "('k \<Rightarrow> 32 word) \<Rightarrow> ('k \<Rightarrow> 'k \<Rightarrow> bool) \<Rightarrow> ('k, 'v) thash \<Rightarrow> 'k \<Rightarrow> (int \<times> 'v option) res" where
  "thash_get hashf eqf h k =
     rbind (probe eqf h k (hashf k AND word_of_int (nentries h - 1)))
       (\<lambda>(idx, found).
          if found then ret (1, Some (val (entries h ! unat idx)))
          else ret (0, None))"

definition thash_get_volatile ::
  "('k \<Rightarrow> 32 word) \<Rightarrow> ('k \<Rightarrow> 'k \<Rightarrow> bool) \<Rightarrow> ('k, 'v) thash \<Rightarrow> 'k \<Rightarrow> (int \<times> 32 word option) res" where
  "thash_get_volatile hashf eqf h k =
     rbind (probe eqf h k (hashf k AND word_of_int (nentries h - 1)))
       (\<lambda>(idx, found).
          if found then ret (1, Some idx)
          else ret (0, None))"

definition thash_size :: "('k, 'v) thash \<Rightarrow> int" where
  "thash_size h = size_f h"

definition thash_clear :: "('k::zero, 'v::zero) thash \<Rightarrow> ('k, 'v) thash res" where
  "thash_clear h =
     (if 0 \<le> nentries h \<and> nat (nentries h) \<le> length (entries h) then
        ret (h\<lparr>entries := replicate (nat (nentries h)) zero_entry @ drop (nat (nentries h)) (entries h),
               size_f := 0\<rparr>)
      else abort OutOfBounds)"

definition thash_copy ::
  "('k \<Rightarrow> 32 word) \<Rightarrow> ('k \<Rightarrow> 'k \<Rightarrow> bool) \<Rightarrow> ('k::zero, 'v::zero) thash \<Rightarrow> ('k, 'v) thash res" where
  "thash_copy hashf eqf h =
     rbind (thash_create_capacity (size_f h))
       (\<lambda>newhash. reinsert_loop (thash_put hashf eqf) h 0 newhash)"

definition thash_iterator_init :: int where
  "thash_iterator_init = - 1"

function thash_iterator_next ::
  "('k, 'v) thash \<Rightarrow> int \<Rightarrow> (int \<times> int \<times> ('k \<times> 'v) option) res" where
  "thash_iterator_next h last_entry =
     (if last_entry + 1 \<ge> nentries h then ret (last_entry, 0, None)
      else if 0 \<le> last_entry + 1 \<and> nat (last_entry + 1) < length (entries h) then
        (if valid (entries h ! nat (last_entry + 1)) \<noteq> 0 then
           ret (last_entry + 1, 1,
                Some (key (entries h ! nat (last_entry + 1)), val (entries h ! nat (last_entry + 1))))
         else thash_iterator_next h (last_entry + 1))
      else abort OutOfBounds)"
  by pat_completeness auto
termination
  by (relation "measure (\<lambda>(h, le). nat (nentries h - le))") auto

declare thash_iterator_next.simps [simp del]

partial_function (option) iterator_remove_loop ::
  "('k \<Rightarrow> 32 word) \<Rightarrow> ('k \<Rightarrow> 'k \<Rightarrow> bool) \<Rightarrow> ('k::zero, 'v::zero) thash \<Rightarrow> int \<Rightarrow>
   ('k, 'v) thash res" where
  "iterator_remove_loop hashf eqf h entry_idx =
     (if 0 \<le> entry_idx \<and> nat entry_idx < length (entries h) then
        (if valid (entries h ! nat entry_idx) \<noteq> 0 then
           rbind (thash_put hashf eqf
                    (h\<lparr>entries := (entries h)[nat entry_idx := (entries h ! nat entry_idx)\<lparr>valid := 0\<rparr>],
                       size_f := size_f h - 1\<rparr>)
                    (key (entries h ! nat entry_idx)) (val (entries h ! nat entry_idx)))
             (\<lambda>(h', r, old).
                if r \<noteq> 0 then abort AssertFailed
                else iterator_remove_loop hashf eqf h' ((entry_idx + 1) AND (nentries h' - 1)))
         else ret h)
      else abort OutOfBounds)"

definition thash_iterator_remove ::
  "('k \<Rightarrow> 32 word) \<Rightarrow> ('k \<Rightarrow> 'k \<Rightarrow> bool) \<Rightarrow> ('k::zero, 'v::zero) thash \<Rightarrow> int \<Rightarrow>
   ('k, 'v) thash res" where
  "thash_iterator_remove hashf eqf h last_entry =
     (if 0 \<le> last_entry \<and> nat last_entry < length (entries h) then
        let h1 = h\<lparr>entries := (entries h)[nat last_entry := (entries h ! nat last_entry)\<lparr>valid := 0\<rparr>]\<rparr>
        in rbind (iterator_remove_loop hashf eqf h1 ((last_entry + 1) AND (nentries h1 - 1)))
             (\<lambda>h2. ret (h2\<lparr>size_f := size_f h2 - 1\<rparr>))
      else abort OutOfBounds)"

section \<open>Table invariants\<close>

text \<open>
  A slot is occupied when its \<^verbatim>\<open>valid\<close> byte is non-zero. \<open>coff n s d\<close> is the slot reached
  from slot \<open>s\<close> after \<open>d\<close> steps of \<^verbatim>\<open>(idx + 1) & (nentries - 1)\<close> in a table of \<open>n\<close>
  slots, and \<open>cdist n a b\<close> the number of such steps from \<open>a\<close> to \<open>b\<close>. \<open>home\<close> is the slot
  \<^verbatim>\<open>code & (nentries - 1)\<close> where the scan for a key starts.
\<close>

definition occupied :: "('k, 'v) entry \<Rightarrow> bool" where
  "occupied e \<longleftrightarrow> valid e \<noteq> 0"

definition coff :: "nat \<Rightarrow> nat \<Rightarrow> nat \<Rightarrow> nat" where
  "coff n s d = (s + d) mod n"

definition cdist :: "nat \<Rightarrow> nat \<Rightarrow> nat \<Rightarrow> nat" where
  "cdist n a b = (b + n - a) mod n"

definition home :: "('k \<Rightarrow> 32 word) \<Rightarrow> ('k, 'v) thash \<Rightarrow> 'k \<Rightarrow> nat" where
  "home hashf h k = unat (hashf k AND word_of_int (nentries h - 1))"

definition cap_ok :: "int \<Rightarrow> bool" where
  "cap_ok n \<longleftrightarrow> 8 \<le> n \<and> n \<le> 1073741824 \<and> n AND (n - 1) = 0"

definition table_ok :: "('k, 'v) thash \<Rightarrow> bool" where
  "table_ok h \<longleftrightarrow> cap_ok (nentries h) \<and> int (length (entries h)) = nentries h"

definition occupancy :: "('k, 'v) entry list \<Rightarrow> nat" where
  "occupancy es = length (filter occupied es)"

text \<open>
  The invariants of the data model: an occupied slot is reached from the home slot of its
  key through occupied slots only (\<open>reach\<close>), no two occupied slots hold equal keys
  (\<open>nodup\<close>), the capacity is a power of two between 8 and \<open>2^30\<close> (the largest one an
  \<^verbatim>\<open>int\<close> holds) and is the length of the entry array, \<^verbatim>\<open>size\<close> counts the occupied slots,
  and at most half of the slots are occupied. \<open>contract\<close> is what the hash and equality
  macros owe the table.
\<close>

definition reach :: "('k \<Rightarrow> nat) \<Rightarrow> ('k, 'v) entry list \<Rightarrow> nat \<Rightarrow> bool" where
  "reach hm es i \<longleftrightarrow>
     (\<forall>d < cdist (length es) (hm (key (es ! i))) i.
        occupied (es ! coff (length es) (hm (key (es ! i))) d))"

definition nodup :: "('k \<Rightarrow> 'k \<Rightarrow> bool) \<Rightarrow> ('k, 'v) entry list \<Rightarrow> bool" where
  "nodup eqf es \<longleftrightarrow>
     (\<forall>i < length es. \<forall>j < length es.
        occupied (es ! i) \<and> occupied (es ! j) \<and> eqf (key (es ! i)) (key (es ! j)) \<longrightarrow> i = j)"

definition well_formed ::
  "('k \<Rightarrow> 32 word) \<Rightarrow> ('k \<Rightarrow> 'k \<Rightarrow> bool) \<Rightarrow> ('k, 'v) thash \<Rightarrow> bool" where
  "well_formed hashf eqf h \<longleftrightarrow>
     table_ok h \<and>
     size_f h = int (occupancy (entries h)) \<and>
     2 * size_f h \<le> nentries h \<and>
     nodup eqf (entries h) \<and>
     (\<forall>i < length (entries h). occupied (entries h ! i) \<longrightarrow> reach (home hashf h) (entries h) i)"

definition contract :: "('k \<Rightarrow> 32 word) \<Rightarrow> ('k \<Rightarrow> 'k \<Rightarrow> bool) \<Rightarrow> bool" where
  "contract hashf eqf \<longleftrightarrow>
     (\<forall>a. eqf a a) \<and>
     (\<forall>a b. eqf a b \<longrightarrow> eqf b a) \<and>
     (\<forall>a b c. eqf a b \<longrightarrow> eqf b c \<longrightarrow> eqf a c) \<and>
     (\<forall>a b. eqf a b \<longrightarrow> hashf a = hashf b)"

definition absent :: "('k \<Rightarrow> 'k \<Rightarrow> bool) \<Rightarrow> ('k, 'v) entry list \<Rightarrow> 'k \<Rightarrow> bool" where
  "absent eqf es k \<longleftrightarrow> (\<forall>i < length es. occupied (es ! i) \<longrightarrow> \<not> eqf k (key (es ! i)))"

section \<open>Arithmetic of the index mask\<close>

lemma pow2_and_pred: "(2 ^ j :: int) AND (2 ^ j - 1) = 0"
proof -
  have "(2 ^ j :: int) AND mask j = take_bit j (2 ^ j)"
    by (simp add: take_bit_eq_mask)
  then show ?thesis
    by (simp add: mask_eq_exp_minus_1)
qed

lemma and_pred_pow2:
  fixes n :: int
  assumes "0 < n" and "n AND (n - 1) = 0"
  shows "\<exists>j. n = 2 ^ j"
  using assms
proof (induction "nat n" arbitrary: n rule: less_induct)
  case less
  show ?case
  proof (cases "even n")
    case True
    then obtain m where m: "n = 2 * m" by (elim evenE)
    with less.prems have mpos: "0 < m" by simp
    have "(2 * m - 1) div 2 = m - 1" by linarith
    then have "n AND (n - 1) = 2 * (m AND (m - 1))"
      by (subst and_int_rec) (simp add: m)
    with less.prems have "m AND (m - 1) = 0" by simp
    moreover have "nat m < nat n" using m mpos by simp
    ultimately obtain j where "m = 2 ^ j" using less.hyps mpos by blast
    then have "n = 2 ^ Suc j" using m by simp
    then show ?thesis by blast
  next
    case False
    then obtain m where m: "n = 2 * m + 1" by (elim oddE)
    have "n AND (n - 1) = 2 * (m AND m)"
      by (subst and_int_rec) (simp add: m)
    with less.prems have "m = 0" by simp
    then have "n = 2 ^ 0" using m by simp
    then show ?thesis by blast
  qed
qed

lemma word_mask_unat:
  assumes "j \<le> 32"
  shows "unat ((w :: 32 word) AND (2 ^ j - 1)) = unat w mod 2 ^ j"
proof -
  have "w AND (2 ^ j - 1) = take_bit j w"
    by (simp add: take_bit_eq_mask mask_eq_exp_minus_1)
  then have "unat (w AND (2 ^ j - 1)) = take_bit j (unat w)"
    by (simp only: unsigned_take_bit_eq)
  then show ?thesis
    by (simp only: take_bit_eq_mod)
qed

lemma word_next_unat:
  assumes "j \<le> 32"
  shows "unat (((w :: 32 word) + 1) AND (2 ^ j - 1)) = Suc (unat w) mod 2 ^ j"
proof -
  have "unat (w + 1) = Suc (unat w) mod 2 ^ 32"
    by (simp add: unat_word_ariths)
  moreover have "(2::nat) ^ j dvd 2 ^ 32"
    using assms by (rule le_imp_power_dvd)
  ultimately show ?thesis
    by (simp only: word_mask_unat [OF assms] mod_mod_cancel)
qed

lemma int_next_nat:
  assumes "0 \<le> x"
  shows "nat ((x + 1) AND (2 ^ j - 1)) = Suc (nat x) mod 2 ^ j"
proof -
  have "(x + 1) AND (2 ^ j - 1) = take_bit j (x + 1)"
    by (simp add: take_bit_eq_mask mask_eq_exp_minus_1)
  also have "\<dots> = (x + 1) mod 2 ^ j"
    by (simp add: take_bit_eq_mod)
  finally have "nat ((x + 1) AND (2 ^ j - 1)) = nat ((x + 1) mod 2 ^ j)" by simp
  also have "\<dots> = nat (x + 1) mod nat (2 ^ j)"
    using assms by (simp add: nat_mod_distrib)
  also have "\<dots> = Suc (nat x) mod 2 ^ j"
    using assms by (simp add: nat_add_distrib nat_power_eq)
  finally show ?thesis .
qed

lemma coff_0 [simp]: "s < n \<Longrightarrow> coff n s 0 = s"
  by (simp add: coff_def)

lemma coff_less [simp]: "0 < n \<Longrightarrow> coff n s d < n"
  by (simp add: coff_def)

lemma cdist_less [simp]: "0 < n \<Longrightarrow> cdist n a b < n"
  by (simp add: cdist_def)

lemma coff_coff: "coff n (coff n s a) b = coff n s (a + b)"
  by (simp add: coff_def mod_add_left_eq add.assoc)

lemma coff_cdist: "s < n \<Longrightarrow> i < n \<Longrightarrow> coff n s (cdist n s i) = i"
proof -
  assume a: "s < n" "i < n"
  have "(s + (i + n - s) mod n) mod n = (s + (i + n - s)) mod n"
    by (simp add: mod_add_right_eq)
  also have "s + (i + n - s) = i + n" using a by simp
  finally show ?thesis using a by (simp add: coff_def cdist_def)
qed

lemma cdist_coff: "s < n \<Longrightarrow> d < n \<Longrightarrow> cdist n s (coff n s d) = d"
proof -
  assume a: "s < n" "d < n"
  show ?thesis
  proof (cases "s + d < n")
    case True
    then show ?thesis using a by (simp add: coff_def cdist_def)
  next
    case False
    then have "(s + d) mod n = s + d - n"
      using a by (simp add: mod_if)
    then show ?thesis using a False by (simp add: coff_def cdist_def)
  qed
qed

lemma coff_inj: "s < n \<Longrightarrow> d < n \<Longrightarrow> d' < n \<Longrightarrow> coff n s d = coff n s d' \<Longrightarrow> d = d'"
  by (metis cdist_coff)

lemma cdist_self [simp]: "s < n \<Longrightarrow> cdist n s s = 0"
  by (simp add: cdist_def)

lemma cdist_0_iff: "s < n \<Longrightarrow> i < n \<Longrightarrow> cdist n s i = 0 \<longleftrightarrow> i = s"
  by (metis cdist_self coff_cdist coff_0)

lemma cdist_next:
  assumes "s < n" "i < n" "i \<noteq> s"
  shows "cdist n (coff n s 1) i = cdist n s i - 1"
proof -
  have n: "0 < n" using assms by simp
  have pos: "0 < cdist n s i" using assms cdist_0_iff [of s n i] by auto
  have "coff n (coff n s 1) (cdist n s i - 1) = coff n s (cdist n s i)"
    using pos by (simp add: coff_coff)
  also have "\<dots> = i" using assms by (simp add: coff_cdist)
  finally have "cdist n (coff n s 1) (coff n (coff n s 1) (cdist n s i - 1)) = cdist n (coff n s 1) i"
    by simp
  moreover have "cdist n s i - 1 < n" using cdist_less [OF n, of s i] by simp
  ultimately show ?thesis
    using n by (simp add: cdist_coff)
qed

lemma occupancy_update:
  "i < length es \<Longrightarrow>
   occupancy (es[i := e]) + (if occupied (es ! i) then 1 else 0) =
   occupancy es + (if occupied e then 1 else 0)"
proof (induction es arbitrary: i)
  case Nil
  then show ?case by simp
next
  case (Cons a es)
  then show ?case
    by (cases i) (auto simp: occupancy_def)
qed

lemma occupancy_le: "occupancy es \<le> length es"
  by (simp add: occupancy_def)

lemma exists_empty:
  assumes "occupancy es < length es"
  shows "\<exists>e < length es. \<not> occupied (es ! e)"
proof (rule ccontr)
  assume "\<not> ?thesis"
  then have "\<forall>x \<in> set es. occupied x"
    by (auto simp: in_set_conv_nth)
  then have "filter occupied es = es" by simp
  with assms show False by (simp add: occupancy_def)
qed

lemma cap_ok_pow2:
  assumes "cap_ok n"
  shows "\<exists>j. 3 \<le> j \<and> j \<le> 30 \<and> n = 2 ^ j"
proof -
  from assms have n: "8 \<le> n" "n \<le> 2 ^ 30" "n AND (n - 1) = 0"
    by (simp_all add: cap_ok_def)
  then obtain j where j: "n = 2 ^ j"
    using and_pred_pow2 [of n] by auto
  have "3 \<le> j"
    using power_le_imp_le_exp [of "2::int" 3 j] n j by simp
  moreover have "j \<le> 30"
    using power_le_imp_le_exp [of "2::int" j 30] n j by simp
  ultimately show ?thesis using j by blast
qed

lemma cap_ok_exp: "3 \<le> j \<Longrightarrow> j \<le> 30 \<Longrightarrow> cap_ok (2 ^ j)"
proof -
  assume a: "3 \<le> j" "j \<le> 30"
  have "(2::int) ^ 3 \<le> 2 ^ j" using a by (intro power_increasing) simp_all
  moreover have "(2::int) ^ j \<le> 2 ^ 30" using a by (intro power_increasing) simp_all
  ultimately show ?thesis
    by (simp add: cap_ok_def pow2_and_pred)
qed

section \<open>The linear-probe scan\<close>

lemma table_ok_pow2:
  assumes "table_ok h"
  shows "\<exists>j. 3 \<le> j \<and> j \<le> 30 \<and> nentries h = 2 ^ j \<and> length (entries h) = 2 ^ j"
proof -
  from assms obtain j where j: "3 \<le> j" "j \<le> 30" "nentries h = 2 ^ j"
    using cap_ok_pow2 by (auto simp: table_ok_def)
  from assms j have "int (length (entries h)) = int (2 ^ j)"
    by (simp add: table_ok_def)
  then have "length (entries h) = 2 ^ j" by (simp only: of_nat_eq_iff)
  with j show ?thesis by blast
qed

lemma table_ok_length_pos: "table_ok h \<Longrightarrow> 0 < length (entries h)"
  using table_ok_pow2 by fastforce

lemma home_mod:
  assumes "table_ok h"
  shows "home hashf h k = unat (hashf k) mod length (entries h)"
proof -
  from table_ok_pow2 [OF assms] obtain j
    where j: "j \<le> 30" "nentries h = 2 ^ j" "length (entries h) = 2 ^ j" by blast
  then show ?thesis
    using word_mask_unat [of j "hashf k"] by (simp add: home_def)
qed

lemma home_less: "table_ok h \<Longrightarrow> home hashf h k < length (entries h)"
  using table_ok_length_pos [of h] by (simp add: home_mod)

lemma next_idx:
  assumes "table_ok h"
  shows "unat (((idx :: 32 word) + 1) AND word_of_int (nentries h - 1)) = coff (length (entries h)) (unat idx) 1"
proof -
  from table_ok_pow2 [OF assms] obtain j
    where j: "j \<le> 30" "nentries h = 2 ^ j" "length (entries h) = 2 ^ j" by blast
  then show ?thesis
    using word_next_unat [of j idx] by (simp add: coff_def)
qed

lemma next_idx_int:
  assumes "table_ok h" "0 \<le> x"
  shows "nat ((x + 1) AND (nentries h - 1)) = coff (length (entries h)) (nat x) 1"
    and "0 \<le> (x + 1) AND (nentries h - 1)"
proof -
  from table_ok_pow2 [OF assms(1)] obtain j
    where j: "j \<le> 30" "nentries h = 2 ^ j" "length (entries h) = 2 ^ j" by blast
  then show "nat ((x + 1) AND (nentries h - 1)) = coff (length (entries h)) (nat x) 1"
    using assms(2) by (simp add: int_next_nat coff_def)
  have "0 \<le> x + 1" using assms(2) by simp
  then show "0 \<le> (x + 1) AND (nentries h - 1)" by simp
qed

lemma probe_run:
  assumes ok: "table_ok h"
    and "unat idx < length (entries h)"
    and "\<forall>d' < d. occupied (entries h ! coff (length (entries h)) (unat idx) d') \<and>
                   \<not> eqf k (key (entries h ! coff (length (entries h)) (unat idx) d'))"
    and "occupied (entries h ! coff (length (entries h)) (unat idx) d) \<longrightarrow>
         eqf k (key (entries h ! coff (length (entries h)) (unat idx) d))"
  shows "\<exists>w. probe eqf h k idx = ret (w, occupied (entries h ! coff (length (entries h)) (unat idx) d)) \<and>
             unat w = coff (length (entries h)) (unat idx) d"
  using assms(2-)
proof (induction d arbitrary: idx)
  case 0
  then show ?case
    by (subst probe.simps) (auto simp: occupied_def)
next
  case (Suc d)
  let ?n = "length (entries h)"
  let ?idx' = "(idx + 1) AND word_of_int (nentries h - 1)"
  have n: "0 < ?n" using ok by (rule table_ok_length_pos)
  have nx: "unat ?idx' = coff ?n (unat idx) 1" using ok by (rule next_idx)
  have sh: "coff ?n (unat ?idx') x = coff ?n (unat idx) (Suc x)" for x
    by (simp only: nx coff_coff) simp
  have here: "occupied (entries h ! unat idx)" "\<not> eqf k (key (entries h ! unat idx))"
    using Suc.prems(2) [rule_format, of 0] Suc.prems(1) by simp_all
  have "\<exists>w. probe eqf h k ?idx' = ret (w, occupied (entries h ! coff ?n (unat ?idx') d)) \<and>
             unat w = coff ?n (unat ?idx') d"
  proof (rule Suc.IH)
    show "unat ?idx' < ?n" using n by (simp only: nx coff_less)
    show "\<forall>d' < d. occupied (entries h ! coff ?n (unat ?idx') d') \<and>
                   \<not> eqf k (key (entries h ! coff ?n (unat ?idx') d'))"
      using Suc.prems(2) by (simp only: sh) simp
    show "occupied (entries h ! coff ?n (unat ?idx') d) \<longrightarrow>
          eqf k (key (entries h ! coff ?n (unat ?idx') d))"
      using Suc.prems(3) by (simp only: sh)
  qed
  moreover have "probe eqf h k idx = probe eqf h k ?idx'"
    using here Suc.prems(1) by (subst probe.simps) (simp add: occupied_def)
  ultimately show ?case by (simp only: sh)
qed

lemma least_stop:
  assumes "s < n" "e < n" "P e"
  shows "\<exists>d < n. P (coff n s d) \<and> (\<forall>d' < d. \<not> P (coff n s d'))"
proof -
  let ?Q = "\<lambda>d. P (coff n s d)"
  have q: "?Q (cdist n s e)" using assms by (simp add: coff_cdist)
  have "?Q (Least ?Q)" using q by (rule LeastI)
  moreover have "Least ?Q \<le> cdist n s e" using q by (rule Least_le)
  then have "Least ?Q < n" using cdist_less [of n s e] assms by linarith
  moreover have "\<forall>d' < Least ?Q. \<not> ?Q d'" using not_less_Least by blast
  ultimately show ?thesis by blast
qed

lemma contract_sym: "contract hashf eqf \<Longrightarrow> eqf a b \<Longrightarrow> eqf b a"
  unfolding contract_def by blast

lemma contract_trans: "contract hashf eqf \<Longrightarrow> eqf a b \<Longrightarrow> eqf b c \<Longrightarrow> eqf a c"
  unfolding contract_def by blast

lemma contract_refl: "contract hashf eqf \<Longrightarrow> eqf a a"
  unfolding contract_def by blast

lemma contract_hash: "contract hashf eqf \<Longrightarrow> eqf a b \<Longrightarrow> hashf a = hashf b"
  unfolding contract_def by blast

lemma contract_home: "contract hashf eqf \<Longrightarrow> eqf a b \<Longrightarrow> home hashf h a = home hashf h b"
  using contract_hash [of hashf eqf a b] by (simp add: home_def)

lemma home_idx: "unat (hashf k AND word_of_int (nentries h - 1)) = home hashf h k"
  by (simp only: home_def)

lemma home_nentries: "nentries h' = nentries h \<Longrightarrow> home hashf h' = home hashf h"
  by (rule ext) (simp only: home_def)

lemma probe_total:
  assumes ok: "table_ok h"
    and s: "unat idx < length (entries h)"
    and e: "e < length (entries h)" "\<not> occupied (entries h ! e)"
  shows "\<exists>w d. d < length (entries h) \<and>
           probe eqf h k idx = ret (w, occupied (entries h ! coff (length (entries h)) (unat idx) d)) \<and>
           unat w = coff (length (entries h)) (unat idx) d \<and>
           (\<forall>d' < d. occupied (entries h ! coff (length (entries h)) (unat idx) d') \<and>
                      \<not> eqf k (key (entries h ! coff (length (entries h)) (unat idx) d'))) \<and>
           (occupied (entries h ! coff (length (entries h)) (unat idx) d) \<longrightarrow>
              eqf k (key (entries h ! coff (length (entries h)) (unat idx) d)))"
proof -
  let ?n = "length (entries h)"
  let ?P = "\<lambda>x. \<not> occupied (entries h ! x) \<or> eqf k (key (entries h ! x))"
  from least_stop [of "unat idx" ?n e ?P] s e
  obtain d where d: "d < ?n" "?P (coff ?n (unat idx) d)" "\<forall>d' < d. \<not> ?P (coff ?n (unat idx) d')"
    by blast
  from d(3) have run: "\<forall>d' < d. occupied (entries h ! coff ?n (unat idx) d') \<and>
                      \<not> eqf k (key (entries h ! coff ?n (unat idx) d'))" by blast
  from d(2) have stop: "occupied (entries h ! coff ?n (unat idx) d) \<longrightarrow>
              eqf k (key (entries h ! coff ?n (unat idx) d))" by blast
  from probe_run [of h idx d eqf k] ok s run stop
  have "\<exists>w. probe eqf h k idx = ret (w, occupied (entries h ! coff ?n (unat idx) d)) \<and>
            unat w = coff ?n (unat idx) d" by blast
  with d(1) run stop show ?thesis by blast
qed

lemma probe_present:
  assumes ok: "table_ok h" and nd: "nodup eqf (entries h)" and ct: "contract hashf eqf"
    and i: "i < length (entries h)" "occupied (entries h ! i)" "eqf k (key (entries h ! i))"
    and r: "reach (home hashf h) (entries h) i"
  shows "\<exists>w. probe eqf h k (hashf k AND word_of_int (nentries h - 1)) = ret (w, True) \<and> unat w = i"
proof -
  let ?n = "length (entries h)"
  let ?es = "entries h"
  let ?idx = "hashf k AND word_of_int (nentries h - 1)"
  let ?s = "home hashf h k"
  let ?d = "cdist ?n ?s i"
  have n: "0 < ?n" using ok by (rule table_ok_length_pos)
  have s: "?s < ?n" using ok by (rule home_less)
  have hs: "home hashf h (key (?es ! i)) = ?s"
    using contract_home [OF ct i(3), of h] by simp
  have at: "coff ?n ?s ?d = i" using s i(1) by (rule coff_cdist)
  have run: "\<forall>d' < ?d. occupied (?es ! coff ?n (unat ?idx) d') \<and>
                         \<not> eqf k (key (?es ! coff ?n (unat ?idx) d'))"
  proof (intro allI impI conjI)
    fix d' assume d': "d' < ?d"
    show occ: "occupied (?es ! coff ?n (unat ?idx) d')"
      using r d' by (simp only: reach_def hs home_idx)
    show "\<not> eqf k (key (?es ! coff ?n (unat ?idx) d'))"
    proof
      assume "eqf k (key (?es ! coff ?n (unat ?idx) d'))"
      then have m: "eqf k (key (?es ! coff ?n ?s d'))" by (simp only: home_idx)
      let ?x = "coff ?n ?s d'"
      have e1: "eqf (key (?es ! ?x)) (key (?es ! i))"
        by (rule contract_trans [OF ct contract_sym [OF ct m] i(3)])
      have x: "?x < ?n" using n by simp
      have ox: "occupied (?es ! ?x)" using occ by (simp only: home_idx)
      have "?x = i"
        using nd [unfolded nodup_def, rule_format, of ?x i] x i(1,2) ox e1 by blast
      then have eq: "coff ?n ?s d' = coff ?n ?s ?d" using at by simp
      have dn: "?d < ?n" using n by simp
      then have "d' < ?n" using d' by simp
      then have "d' = ?d" using dn eq by (rule coff_inj [OF s])
      with d' show False by simp
    qed
  qed
  have stop: "occupied (?es ! coff ?n (unat ?idx) ?d) \<longrightarrow> eqf k (key (?es ! coff ?n (unat ?idx) ?d))"
    using i(3) by (simp only: home_idx at) simp
  have "unat ?idx < ?n" using s by (simp only: home_idx)
  then have "\<exists>w. probe eqf h k ?idx = ret (w, occupied (?es ! coff ?n (unat ?idx) ?d)) \<and>
            unat w = coff ?n (unat ?idx) ?d"
    using probe_run [of h ?idx ?d eqf k] ok run stop by blast
  then show ?thesis
    using i(2) by (simp only: home_idx at)
qed

lemma probe_absent:
  assumes ok: "table_ok h" and ab: "absent eqf (entries h) k"
    and e: "e < length (entries h)" "\<not> occupied (entries h ! e)"
  shows "\<exists>w d. d < length (entries h) \<and>
           probe eqf h k (hashf k AND word_of_int (nentries h - 1)) = ret (w, False) \<and>
           unat w = coff (length (entries h)) (home hashf h k) d \<and>
           \<not> occupied (entries h ! coff (length (entries h)) (home hashf h k) d) \<and>
           (\<forall>d' < d. occupied (entries h ! coff (length (entries h)) (home hashf h k) d'))"
proof -
  let ?n = "length (entries h)"
  let ?idx = "hashf k AND word_of_int (nentries h - 1)"
  have n: "0 < ?n" using ok by (rule table_ok_length_pos)
  have s: "unat ?idx < ?n" using home_less [OF ok] by (simp only: home_idx)
  from probe_total [OF ok s e, of eqf k] obtain w d where
    d: "d < ?n"
      "probe eqf h k ?idx = ret (w, occupied (entries h ! coff ?n (unat ?idx) d))"
      "unat w = coff ?n (unat ?idx) d"
      "\<forall>d' < d. occupied (entries h ! coff ?n (unat ?idx) d')"
      "occupied (entries h ! coff ?n (unat ?idx) d) \<longrightarrow>
         eqf k (key (entries h ! coff ?n (unat ?idx) d))"
    by blast
  have "coff ?n (unat ?idx) d < ?n" using n by simp
  then have "\<not> occupied (entries h ! coff ?n (unat ?idx) d)"
    using ab [unfolded absent_def, rule_format, of "coff ?n (unat ?idx) d"] d(5) by blast
  then have "probe eqf h k ?idx = ret (w, False)" using d(2) by simp
  with d \<open>\<not> occupied (entries h ! coff ?n (unat ?idx) d)\<close>
  show ?thesis unfolding home_idx by blast
qed

section \<open>Lookup and insertion without growth\<close>

lemma rbind_ret [simp]: "rbind (ret x) f = f x"
  by (simp add: rbind_def ret_def)

lemma rbind_abort [simp]: "rbind (abort e) f = abort e"
  by (simp add: rbind_def abort_def)

lemma ret_inject [simp]: "ret x = ret y \<longleftrightarrow> x = y"
  by (simp add: ret_def)

lemma ret_neq_abort [simp]: "ret x \<noteq> abort e" "abort e \<noteq> ret x"
  by (simp_all add: ret_def abort_def)

lemma occupied_simps [simp]:
  "occupied (e\<lparr>valid := 0\<rparr>) = False"
  "occupied \<lparr>valid = 1, key = k, val = v\<rparr> = True"
  "occupied (e\<lparr>key := k, val := v\<rparr>) = occupied e"
  by (simp_all add: occupied_def)

lemma reach_cong:
  assumes "reach hm es i" "length es' = length es" "key (es' ! i) = key (es ! i)"
    and "\<And>d. d < cdist (length es) (hm (key (es ! i))) i \<Longrightarrow>
              occupied (es ! coff (length es) (hm (key (es ! i))) d) \<Longrightarrow>
              occupied (es' ! coff (length es) (hm (key (es ! i))) d)"
  shows "reach hm es' i"
  using assms unfolding reach_def by simp

lemma reach_fill:
  assumes "reach hm es i" "p < length es" "i \<noteq> p" "\<not> occupied (es ! p)"
  shows "reach hm (es[p := e]) i"
proof (rule reach_cong [OF assms(1)])
  show "length (es[p := e]) = length es" by simp
  show "key (es[p := e] ! i) = key (es ! i)" using assms(3) by simp
  fix d
  assume "occupied (es ! coff (length es) (hm (key (es ! i))) d)"
  then have "coff (length es) (hm (key (es ! i))) d \<noteq> p" using assms(4) by auto
  then show "occupied (es[p := e] ! coff (length es) (hm (key (es ! i))) d)"
    using \<open>occupied (es ! coff (length es) (hm (key (es ! i))) d)\<close> by simp
qed

lemma reach_new:
  assumes "hm k < length es" "d < length es"
    and "\<forall>d' < d. occupied (es ! coff (length es) (hm k) d')"
    and "\<not> occupied (es ! coff (length es) (hm k) d)"
  shows "reach hm (es[coff (length es) (hm k) d := \<lparr>valid = 1, key = k, val = v\<rparr>])
           (coff (length es) (hm k) d)"
proof -
  let ?n = "length es"
  let ?p = "coff ?n (hm k) d"
  have n: "0 < ?n" using assms(1) by linarith
  have p: "?p < ?n" using n by simp
  have dist: "cdist ?n (hm k) ?p = d" using assms(1,2) by (rule cdist_coff)
  show ?thesis
    unfolding reach_def
  proof (intro allI impI)
    fix d'
    assume "d' < cdist (length (es[?p := \<lparr>valid = 1, key = k, val = v\<rparr>]))
                 (hm (key (es[?p := \<lparr>valid = 1, key = k, val = v\<rparr>] ! ?p))) ?p"
    then have d': "d' < d" using p dist by simp
    then have "occupied (es ! coff ?n (hm k) d')" using assms(3) by simp
    moreover from this have "coff ?n (hm k) d' \<noteq> ?p" using assms(4) by auto
    ultimately show "occupied (es[?p := \<lparr>valid = 1, key = k, val = v\<rparr>] !
             coff (length (es[?p := \<lparr>valid = 1, key = k, val = v\<rparr>]))
               (hm (key (es[?p := \<lparr>valid = 1, key = k, val = v\<rparr>] ! ?p))) d')"
      using p by simp
  qed
qed

lemma nodup_insert:
  assumes "nodup eqf es" "absent eqf es k" "contract hashf eqf" "p < length es"
  shows "nodup eqf (es[p := \<lparr>valid = 1, key = k, val = v\<rparr>])"
  unfolding nodup_def
proof (intro allI impI)
  fix i j
  let ?es' = "es[p := \<lparr>valid = 1, key = k, val = v\<rparr>]"
  assume i: "i < length ?es'" and j: "j < length ?es'"
    and c: "occupied (?es' ! i) \<and> occupied (?es' ! j) \<and> eqf (key (?es' ! i)) (key (?es' ! j))"
  show "i = j"
  proof (cases "i = p")
    case ip: True
    show ?thesis
    proof (cases "j = p")
      case True
      with ip show ?thesis by simp
    next
      case False
      with ip c i j assms(4) have "occupied (es ! j)" "eqf k (key (es ! j))" by simp_all
      with assms(2) j show ?thesis unfolding absent_def by simp
    qed
  next
    case ip: False
    show ?thesis
    proof (cases "j = p")
      case True
      with ip c i j assms(4) have "occupied (es ! i)" "eqf (key (es ! i)) k" by simp_all
      then have "occupied (es ! i)" "eqf k (key (es ! i))"
        using contract_sym [OF assms(3)] by blast+
      with assms(2) i show ?thesis unfolding absent_def by simp
    next
      case False
      with ip c have "occupied (es ! i) \<and> occupied (es ! j) \<and> eqf (key (es ! i)) (key (es ! j))"
        by simp
      with assms(1) i j show ?thesis unfolding nodup_def by simp
    qed
  qed
qed

lemma thash_get_present:
  assumes "table_ok h" "nodup eqf (entries h)" "contract hashf eqf"
    and "i < length (entries h)" "occupied (entries h ! i)" "eqf k (key (entries h ! i))"
    and "reach (home hashf h) (entries h) i"
  shows "thash_get hashf eqf h k = ret (1, Some (val (entries h ! i)))"
proof -
  from probe_present [OF assms] obtain w where
    "probe eqf h k (hashf k AND word_of_int (nentries h - 1)) = ret (w, True)" "unat w = i"
    by blast
  then show ?thesis by (simp only: thash_get_def rbind_ret) simp
qed

lemma thash_get_absent:
  assumes "table_ok h" "absent eqf (entries h) k"
    and "e < length (entries h)" "\<not> occupied (entries h ! e)"
  shows "thash_get hashf eqf h k = ret (0, None)"
proof -
  from probe_absent [OF assms, of hashf] obtain w where
    "probe eqf h k (hashf k AND word_of_int (nentries h - 1)) = ret (w, False)"
    by blast
  then show ?thesis by (simp only: thash_get_def rbind_ret) simp
qed

lemma thash_put_update:
  assumes "table_ok h" "nodup eqf (entries h)" "contract hashf eqf"
    and "i < length (entries h)" "occupied (entries h ! i)" "eqf k (key (entries h ! i))"
    and "reach (home hashf h) (entries h) i"
  shows "thash_put hashf eqf h k v =
           ret (h\<lparr>entries := (entries h)[i := (entries h ! i)\<lparr>key := k, val := v\<rparr>]\<rparr>,
                1, Some (key (entries h ! i), val (entries h ! i)))"
proof -
  from probe_present [OF assms] obtain w where
    "probe eqf h k (hashf k AND word_of_int (nentries h - 1)) = ret (w, True)" "unat w = i"
    by blast
  then show ?thesis
    by (subst thash_put.simps) (simp only: rbind_ret, simp)
qed

lemma thash_put_insert:
  assumes "table_ok h" "absent eqf (entries h) k"
    and "e < length (entries h)" "\<not> occupied (entries h ! e)"
    and "2 * (size_f h + 1) \<le> nentries h"
  shows "\<exists>d < length (entries h).
           thash_put hashf eqf h k v =
             ret (h\<lparr>entries := (entries h)[coff (length (entries h)) (home hashf h k) d :=
                                      \<lparr>valid = 1, key = k, val = v\<rparr>],
                    size_f := size_f h + 1\<rparr>, 0, None) \<and>
           \<not> occupied (entries h ! coff (length (entries h)) (home hashf h k) d) \<and>
           (\<forall>d' < d. occupied (entries h ! coff (length (entries h)) (home hashf h k) d'))"
proof -
  from probe_absent [OF assms(1-4), of hashf] obtain w d where d:
    "d < length (entries h)"
    "probe eqf h k (hashf k AND word_of_int (nentries h - 1)) = ret (w, False)"
    "unat w = coff (length (entries h)) (home hashf h k) d"
    "\<not> occupied (entries h ! coff (length (entries h)) (home hashf h k) d)"
    "\<forall>d' < d. occupied (entries h ! coff (length (entries h)) (home hashf h k) d')"
    by blast
  have "thash_put hashf eqf h k v =
          ret (h\<lparr>entries := (entries h)[coff (length (entries h)) (home hashf h k) d :=
                                      \<lparr>valid = 1, key = k, val = v\<rparr>],
                 size_f := size_f h + 1\<rparr>, 0, None)"
    using d(2,3) assms(5) by (subst thash_put.simps) (simp only: rbind_ret, simp add: Let_def)
  with d show ?thesis by blast
qed

section \<open>Allocation\<close>

text \<open>
  \<open>spec_growth_target\<close> follows the words of the specification: the smallest power of two
  that is at least four times the target occupancy, and at least 8. \<open>empty_table n\<close> is
  what \<^verbatim>\<open>calloc\<close> gives for \<open>n\<close> entries.
\<close>

definition spec_growth_target :: "int \<Rightarrow> int" where
  "spec_growth_target target = (LEAST p. (\<exists>j. p = 2 ^ j) \<and> 4 * target \<le> p \<and> 8 \<le> p)"

definition empty_table :: "int \<Rightarrow> ('k::zero, 'v::zero) thash" where
  "empty_table n = \<lparr>entries = replicate (nat n) zero_entry, nentries = n, size_f = 0\<rparr>"

lemma spec_growth_target_eq:
  assumes "3 \<le> j" "4 * t \<le> 2 ^ j" "3 < j \<longrightarrow> 2 ^ (j - 1) < 4 * t"
  shows "spec_growth_target t = 2 ^ j"
  unfolding spec_growth_target_def
proof (rule Least_equality)
  have "(2::int) ^ 3 \<le> 2 ^ j" using assms(1) by (intro power_increasing) simp_all
  then show "(\<exists>ja. (2::int) ^ j = 2 ^ ja) \<and> 4 * t \<le> 2 ^ j \<and> 8 \<le> (2::int) ^ j"
    using assms(2) by auto
next
  fix y :: int
  assume "(\<exists>j. y = 2 ^ j) \<and> 4 * t \<le> y \<and> 8 \<le> y"
  then obtain i where i: "y = 2 ^ i" "4 * t \<le> 2 ^ i" "(8::int) \<le> 2 ^ i" by blast
  show "2 ^ j \<le> y"
  proof (cases "j \<le> i")
    case True
    then have "(2::int) ^ j \<le> 2 ^ i" by (intro power_increasing) simp_all
    then show ?thesis using i by simp
  next
    case False
    then have ij: "i \<le> j - 1" by simp
    then have le: "(2::int) ^ i \<le> 2 ^ (j - 1)" by (intro power_increasing) simp_all
    have "3 \<le> i" using power_le_imp_le_exp [of "2::int" 3 i] i(3) by simp
    then have "3 < j" using False by simp
    then have "2 ^ (j - 1) < 4 * t" using assms(3) by blast
    with le i(2) show ?thesis by linarith
  qed
qed

lemma int_max_pow: "INT_MAX = 2 ^ 31 - 1" "INT_MIN = - (2 ^ 31)"
  by (simp_all add: INT_MAX_def INT_MIN_def)

lemma create_capacity_loop_pow:
  assumes "a \<le> b" "b \<le> 30" "target \<le> 2 ^ b" "a < b \<longrightarrow> 2 ^ (b - 1) < target"
  shows "create_capacity_loop (2 ^ a) target = ret (2 ^ b)"
  using assms
proof (induction "b - a" arbitrary: a)
  case 0
  then have "a = b" by simp
  then show ?case using 0 by (subst create_capacity_loop.simps) simp
next
  case (Suc x)
  then have ab: "a < b" by simp
  then have "(2::int) ^ a \<le> 2 ^ (b - 1)" by (intro power_increasing) simp_all
  moreover have "2 ^ (b - 1) < target" using Suc.prems(4) ab by blast
  ultimately have lt: "2 ^ a < target" by linarith
  have "(2::int) ^ (Suc a) \<le> 2 ^ 30" using ab Suc.prems(2) by (intro power_increasing) simp_all
  then have "(2::int) ^ a * 2 \<le> 1073741824" by simp
  moreover have "(0::int) < 2 ^ a" by simp
  ultimately have noov: "\<not> ((2::int) ^ a * 2 < INT_MIN \<or> INT_MAX < 2 ^ a * 2)"
    unfolding INT_MAX_def INT_MIN_def by linarith
  have "create_capacity_loop (2 ^ a) target = create_capacity_loop (2 ^ a * 2) target"
    using lt noov by (subst create_capacity_loop.simps) simp
  also have "\<dots> = create_capacity_loop (2 ^ Suc a) target" by (simp add: mult.commute)
  also have "\<dots> = ret (2 ^ b)"
    using Suc.hyps(2) Suc.prems ab by (intro Suc.hyps(1)) simp_all
  finally show ?case .
qed

lemma create_capacity_loop_overflow:
  assumes "a \<le> 30" "2 ^ 30 < target"
  shows "create_capacity_loop (2 ^ a) target = abort IntOverflow"
  using assms
proof (induction "30 - a" arbitrary: a)
  case 0
  then have a: "a = 30" by simp
  show ?case using 0 unfolding a
    by (subst create_capacity_loop.simps) (simp add: INT_MAX_def)
next
  case (Suc x)
  then have a: "a < 30" by simp
  then have "(2::int) ^ a \<le> 2 ^ 30" by (intro power_increasing) simp_all
  then have lt: "2 ^ a < target" using Suc.prems by simp
  have "(2::int) ^ (Suc a) \<le> 2 ^ 30" using a by (intro power_increasing) simp_all
  then have "(2::int) ^ a * 2 \<le> 1073741824" by simp
  moreover have "(0::int) < 2 ^ a" by simp
  ultimately have noov: "\<not> ((2::int) ^ a * 2 < INT_MIN \<or> INT_MAX < 2 ^ a * 2)"
    unfolding INT_MAX_def INT_MIN_def by linarith
  have "create_capacity_loop (2 ^ a) target = create_capacity_loop (2 ^ a * 2) target"
    using lt noov by (subst create_capacity_loop.simps) simp
  also have "\<dots> = create_capacity_loop (2 ^ Suc a) target" by (simp add: mult.commute)
  also have "\<dots> = abort IntOverflow"
    using Suc.hyps(2) Suc.prems a by (intro Suc.hyps(1)) simp_all
  finally show ?case .
qed

lemma pow2_bounds:
  fixes x :: int
  assumes "8 \<le> x" "x \<le> 2 ^ 30"
  shows "\<exists>j. 3 \<le> j \<and> j \<le> 30 \<and> x \<le> 2 ^ j \<and> (3 < j \<longrightarrow> 2 ^ (j - 1) < x)"
proof -
  let ?P = "\<lambda>j. x \<le> 2 ^ j \<and> 3 \<le> j"
  have p30: "?P 30" using assms by simp
  define j where "j = Least ?P"
  have pj: "?P j" unfolding j_def using p30 by (rule LeastI)
  have j30: "j \<le> 30" unfolding j_def using p30 by (rule Least_le)
  have "2 ^ (j - 1) < x" if "3 < j"
  proof (rule ccontr)
    assume "\<not> 2 ^ (j - 1) < x"
    then have "?P (j - 1)" using that by simp
    then have "j \<le> j - 1" unfolding j_def by (rule Least_le)
    with that show False by simp
  qed
  with pj j30 show ?thesis by blast
qed

lemma thash_create_capacity_ok:
  assumes "- (2 ^ 29) \<le> capacity" "capacity \<le> 2 ^ 28"
  shows "\<exists>j. 3 \<le> j \<and> j \<le> 30 \<and> 4 * capacity \<le> 2 ^ j \<and> (3 < j \<longrightarrow> 2 ^ (j - 1) < 4 * capacity) \<and>
           (thash_create_capacity capacity :: ('k::zero, 'v::zero) thash res) = ret (empty_table (2 ^ j))"
proof (cases "4 * capacity < 8")
  case True
  have "(thash_create_capacity capacity :: ('k, 'v) thash res) = ret (empty_table (2 ^ 3))"
    using True assms(1)
    by (simp add: thash_create_capacity_def empty_table_def INT_MAX_def INT_MIN_def)
  then show ?thesis using True by (intro exI [of _ 3]) simp
next
  case False
  then have t: "8 \<le> 4 * capacity" "4 * capacity \<le> 2 ^ 30" using assms by simp_all
  from pow2_bounds [OF t] obtain j where
    j: "3 \<le> j" "j \<le> 30" "4 * capacity \<le> 2 ^ j" "3 < j \<longrightarrow> 2 ^ (j - 1) < 4 * capacity"
    by blast
  let ?t = "4 * capacity"
  have ov: "\<not> (?t < INT_MIN \<or> INT_MAX < ?t)"
    using t by (simp add: INT_MAX_def INT_MIN_def)
  have "(if ?t AND (?t - 1) \<noteq> 0 then create_capacity_loop 8 ?t else ret ?t) = ret (2 ^ j)"
  proof (cases "?t AND (?t - 1) = 0")
    case True
    then obtain i where i: "?t = 2 ^ i" using and_pred_pow2 [of ?t] t by auto
    have "i = j"
    proof (rule ccontr)
      assume ne: "i \<noteq> j"
      have ij: "i \<le> j" using power_le_imp_le_exp [of "2::int" i j] j(3) i by simp
      then have "i \<le> j - 1" using ne by simp
      then have "(2::int) ^ i \<le> 2 ^ (j - 1)" by (intro power_increasing) simp_all
      moreover have "3 \<le> i" using power_le_imp_le_exp [of "2::int" 3 i] t(1) i by simp
      then have "3 < j" using ij ne by simp
      ultimately show False using j(4) i by simp
    qed
    with True i show ?thesis by simp
  next
    case False
    have "create_capacity_loop (2 ^ 3) ?t = ret (2 ^ j)"
      using j by (intro create_capacity_loop_pow) simp_all
    with False show ?thesis by simp
  qed
  then have "(thash_create_capacity capacity :: ('k, 'v) thash res) = ret (empty_table (2 ^ j))"
    using ov False
    by (simp add: thash_create_capacity_def empty_table_def pow2_and_pred Let_def del: rbind_ret)
       (simp add: pow2_and_pred)
  with j show ?thesis by blast
qed

section \<open>The stored pairs, and insertion keeping the invariants\<close>

definition content :: "('k, 'v) entry list \<Rightarrow> ('k \<times> 'v) set" where
  "content es = (\<lambda>e. (key e, val e)) ` {e \<in> set es. occupied e}"

lemma content_Nil [simp]: "content [] = {}"
  by (simp add: content_def)

lemma content_Cons:
  "content (x # xs) = (if occupied x then insert (key x, val x) (content xs) else content xs)"
  by (auto simp: content_def)

lemma occupancy_Cons:
  "occupancy (x # xs) = (if occupied x then Suc (occupancy xs) else occupancy xs)"
  by (simp add: occupancy_def)

lemma content_iff:
  "(k, v) \<in> content es \<longleftrightarrow> (\<exists>i < length es. occupied (es ! i) \<and> key (es ! i) = k \<and> val (es ! i) = v)"
  by (auto simp: content_def in_set_conv_nth)

lemma content_fill:
  assumes "p < length es" "\<not> occupied (es ! p)"
  shows "content (es[p := \<lparr>valid = 1, key = k, val = v\<rparr>]) = insert (k, v) (content es)"
proof (rule set_eqI)
  fix x :: "'a \<times> 'b"
  obtain a b where x: "x = (a, b)" by (cases x)
  let ?es' = "es[p := \<lparr>valid = 1, key = k, val = v\<rparr>]"
  have "(a, b) \<in> content ?es' \<longleftrightarrow> (a, b) = (k, v) \<or> (a, b) \<in> content es"
  proof
    assume "(a, b) \<in> content ?es'"
    then obtain i where i: "i < length es" "occupied (?es' ! i)" "key (?es' ! i) = a" "val (?es' ! i) = b"
      by (auto simp: content_iff)
    show "(a, b) = (k, v) \<or> (a, b) \<in> content es"
    proof (cases "i = p")
      case True
      with i assms(1) show ?thesis by simp
    next
      case False
      with i have "occupied (es ! i)" "key (es ! i) = a" "val (es ! i) = b" by simp_all
      with i(1) show ?thesis unfolding content_iff by blast
    qed
  next
    assume "(a, b) = (k, v) \<or> (a, b) \<in> content es"
    then show "(a, b) \<in> content ?es'"
    proof
      assume "(a, b) = (k, v)"
      then have "occupied (?es' ! p)" "key (?es' ! p) = a" "val (?es' ! p) = b"
        using assms(1) by simp_all
      then show ?thesis using assms(1) unfolding content_iff by (intro exI [of _ p]) simp
    next
      assume "(a, b) \<in> content es"
      then obtain i where i: "i < length es" "occupied (es ! i)" "key (es ! i) = a" "val (es ! i) = b"
        by (auto simp: content_iff)
      then have "i \<noteq> p" using assms(2) by auto
      then have "occupied (?es' ! i)" "key (?es' ! i) = a" "val (?es' ! i) = b"
        using i by simp_all
      then show ?thesis using i(1) unfolding content_iff by (intro exI [of _ i]) simp
    qed
  qed
  then show "x \<in> content ?es' \<longleftrightarrow> x \<in> insert (k, v) (content es)"
    by (simp add: x)
qed

lemma content_clear:
  assumes "q < length es" "occupied (es ! q)"
  shows "insert (key (es ! q), val (es ! q)) (content (es[q := (es ! q)\<lparr>valid := 0\<rparr>])) = content es"
proof (rule set_eqI)
  fix x :: "'a \<times> 'b"
  obtain a b where x: "x = (a, b)" by (cases x)
  let ?es' = "es[q := (es ! q)\<lparr>valid := 0\<rparr>]"
  have "(a, b) = (key (es ! q), val (es ! q)) \<or> (a, b) \<in> content ?es' \<longleftrightarrow> (a, b) \<in> content es"
  proof
    assume "(a, b) = (key (es ! q), val (es ! q)) \<or> (a, b) \<in> content ?es'"
    then show "(a, b) \<in> content es"
    proof
      assume "(a, b) = (key (es ! q), val (es ! q))"
      then show ?thesis using assms unfolding content_iff by (intro exI [of _ q]) simp
    next
      assume "(a, b) \<in> content ?es'"
      then obtain i where i: "i < length es" "occupied (?es' ! i)" "key (?es' ! i) = a" "val (?es' ! i) = b"
        by (auto simp: content_iff)
      then have "i \<noteq> q" using assms(1) by auto
      then have "occupied (es ! i)" "key (es ! i) = a" "val (es ! i) = b"
        using i by simp_all
      then show ?thesis using i(1) unfolding content_iff by (intro exI [of _ i]) simp
    qed
  next
    assume "(a, b) \<in> content es"
    then obtain i where i: "i < length es" "occupied (es ! i)" "key (es ! i) = a" "val (es ! i) = b"
      by (auto simp: content_iff)
    show "(a, b) = (key (es ! q), val (es ! q)) \<or> (a, b) \<in> content ?es'"
    proof (cases "i = q")
      case True
      with i show ?thesis by simp
    next
      case False
      then have "occupied (?es' ! i)" "key (?es' ! i) = a" "val (?es' ! i) = b"
        using i by simp_all
      then have "(a, b) \<in> content ?es'" using i(1) unfolding content_iff by (intro exI [of _ i]) simp
      then show ?thesis by simp
    qed
  qed
  then show "x \<in> insert (key (es ! q), val (es ! q)) (content ?es') \<longleftrightarrow> x \<in> content es"
    by (simp add: x)
qed

lemma absent_insert:
  assumes "absent eqf es k'" "\<not> eqf k' k"
  shows "absent eqf (es[p := \<lparr>valid = 1, key = k, val = v\<rparr>]) k'"
  unfolding absent_def
proof (intro allI impI)
  fix i
  assume i: "i < length (es[p := \<lparr>valid = 1, key = k, val = v\<rparr>])"
    and o: "occupied (es[p := \<lparr>valid = 1, key = k, val = v\<rparr>] ! i)"
  show "\<not> eqf k' (key (es[p := \<lparr>valid = 1, key = k, val = v\<rparr>] ! i))"
  proof (cases "i = p")
    case True
    with i assms(2) show ?thesis by simp
  next
    case False
    with i o assms(1) show ?thesis unfolding absent_def by simp
  qed
qed

lemma well_formed_empty_slot:
  assumes "well_formed hashf eqf h"
  shows "\<exists>e < length (entries h). \<not> occupied (entries h ! e)"
proof -
  from assms have ok: "table_ok h" and sz: "size_f h = int (occupancy (entries h))"
    and half: "2 * size_f h \<le> nentries h"
    by (simp_all add: well_formed_def)
  have "0 < length (entries h)" using ok by (rule table_ok_length_pos)
  moreover have "int (length (entries h)) = nentries h" using ok by (simp add: table_ok_def)
  ultimately have "occupancy (entries h) < length (entries h)" using sz half by linarith
  then show ?thesis by (rule exists_empty)
qed

lemma well_formed_insert:
  assumes wf: "well_formed hashf eqf h" and ct: "contract hashf eqf"
    and ab: "absent eqf (entries h) k"
    and d: "d < length (entries h)"
    and emp: "\<not> occupied (entries h ! coff (length (entries h)) (home hashf h k) d)"
    and run: "\<forall>d' < d. occupied (entries h ! coff (length (entries h)) (home hashf h k) d')"
    and room: "2 * (size_f h + 1) \<le> nentries h"
  shows "well_formed hashf eqf
           (h\<lparr>entries := (entries h)[coff (length (entries h)) (home hashf h k) d :=
                                      \<lparr>valid = 1, key = k, val = v\<rparr>],
              size_f := size_f h + 1\<rparr>)"
proof -
  let ?es = "entries h"
  let ?n = "length ?es"
  let ?p = "coff ?n (home hashf h k) d"
  let ?es' = "?es[?p := \<lparr>valid = 1, key = k, val = v\<rparr>]"
  let ?h' = "h\<lparr>entries := ?es', size_f := size_f h + 1\<rparr>"
  from wf have ok: "table_ok h" and sz: "size_f h = int (occupancy ?es)"
    and nd: "nodup eqf ?es"
    and rc: "\<forall>i < ?n. occupied (?es ! i) \<longrightarrow> reach (home hashf h) ?es i"
    by (simp_all add: well_formed_def)
  have n: "0 < ?n" using ok by (rule table_ok_length_pos)
  have p: "?p < ?n" using n by simp
  have hm: "home hashf ?h' = home hashf h" by (rule home_nentries) simp
  have 1: "table_ok ?h'" using ok by (simp add: table_ok_def)
  have "occupancy ?es' + (if occupied (?es ! ?p) then 1 else 0) =
        occupancy ?es + (if occupied \<lparr>valid = 1, key = k, val = v\<rparr> then 1 else 0)"
    using p by (rule occupancy_update)
  then have 2: "size_f ?h' = int (occupancy (entries ?h'))" using emp sz by simp
  have 3: "2 * size_f ?h' \<le> nentries ?h'" using room by simp
  have 4: "nodup eqf (entries ?h')" using nodup_insert [OF nd ab ct p] by simp
  have 5: "reach (home hashf ?h') (entries ?h') i" if i: "i < ?n" "occupied (?es' ! i)" for i
  proof (cases "i = ?p")
    case True
    have "reach (home hashf h) ?es' ?p"
      using home_less [OF ok] d run emp by (rule reach_new)
    with True show ?thesis by (simp add: hm)
  next
    case False
    with i have "occupied (?es ! i)" by simp
    with rc i(1) have "reach (home hashf h) ?es i" by simp
    then have "reach (home hashf h) ?es' i" using p False emp by (rule reach_fill)
    then show ?thesis by (simp add: hm)
  qed
  from 1 2 3 4 5 show ?thesis
    unfolding well_formed_def by simp
qed

lemma well_formed_update:
  assumes wf: "well_formed hashf eqf h" and ct: "contract hashf eqf"
    and i: "i < length (entries h)" "occupied (entries h ! i)" "eqf k (key (entries h ! i))"
  shows "well_formed hashf eqf (h\<lparr>entries := (entries h)[i := (entries h ! i)\<lparr>key := k, val := v\<rparr>]\<rparr>)"
proof -
  let ?es = "entries h"
  let ?n = "length ?es"
  let ?es' = "?es[i := (?es ! i)\<lparr>key := k, val := v\<rparr>]"
  let ?h' = "h\<lparr>entries := ?es'\<rparr>"
  from wf have ok: "table_ok h" and sz: "size_f h = int (occupancy ?es)"
    and half: "2 * size_f h \<le> nentries h"
    and nd: "nodup eqf ?es"
    and rc: "\<forall>i < ?n. occupied (?es ! i) \<longrightarrow> reach (home hashf h) ?es i"
    by (simp_all add: well_formed_def)
  have hm: "home hashf ?h' = home hashf h" by (rule home_nentries) simp
  have occ: "occupied (?es' ! x) = occupied (?es ! x)" if "x < ?n" for x
    using that by (cases "x = i") simp_all
  have hk: "home hashf h (key (?es' ! x)) = home hashf h (key (?es ! x))" if "x < ?n" for x
    using that i(1) contract_home [OF ct i(3), of h] by (cases "x = i") simp_all
  have 1: "table_ok ?h'" using ok by (simp add: table_ok_def)
  have "occupancy ?es' + (if occupied (?es ! i) then 1 else 0) =
        occupancy ?es + (if occupied ((?es ! i)\<lparr>key := k, val := v\<rparr>) then 1 else 0)"
    using i(1) by (rule occupancy_update)
  then have 2: "size_f ?h' = int (occupancy (entries ?h'))" using sz by simp
  have 3: "2 * size_f ?h' \<le> nentries ?h'" using half by simp
  have 4: "nodup eqf ?es'"
    unfolding nodup_def
  proof (intro allI impI)
    fix a b
    assume a: "a < length ?es'" and b: "b < length ?es'"
      and c: "occupied (?es' ! a) \<and> occupied (?es' ! b) \<and> eqf (key (?es' ! a)) (key (?es' ! b))"
    have oa: "occupied (?es ! a)" and ob: "occupied (?es ! b)" using a b c occ by simp_all
    have ka: "eqf (key (?es ! a)) (key (?es' ! a))"
    proof (cases "a = i")
      case True
      then show ?thesis using i(1,3) contract_sym [OF ct] by simp
    next
      case False
      then show ?thesis using contract_refl [OF ct] by simp
    qed
    have kb: "eqf (key (?es' ! b)) (key (?es ! b))"
    proof (cases "b = i")
      case True
      then show ?thesis using i(1,3) by simp
    next
      case False
      then show ?thesis using contract_refl [OF ct] by simp
    qed
    have "eqf (key (?es ! a)) (key (?es ! b))"
      using contract_trans [OF ct ka contract_trans [OF ct _ kb]] c by blast
    with nd a b oa ob show "a = b" unfolding nodup_def by simp
  qed
  have 5: "reach (home hashf ?h') (entries ?h') x" if x: "x < ?n" "occupied (?es' ! x)" for x
  proof -
    have n: "0 < ?n" using ok by (rule table_ok_length_pos)
    have r: "reach (home hashf h) ?es x" using rc x occ by simp
    have "reach (home hashf h) ?es' x"
      unfolding reach_def
    proof (intro allI impI)
      fix d
      assume "d < cdist (length ?es') (home hashf h (key (?es' ! x))) x"
      then have "d < cdist ?n (home hashf h (key (?es ! x))) x"
        using hk [OF x(1)] by simp
      then have "occupied (?es ! coff ?n (home hashf h (key (?es ! x))) d)"
        using r unfolding reach_def by blast
      moreover have "coff ?n (home hashf h (key (?es ! x))) d < ?n" using n by simp
      ultimately have "occupied (?es' ! coff ?n (home hashf h (key (?es ! x))) d)"
        using occ by blast
      then show "occupied (?es' ! coff (length ?es') (home hashf h (key (?es' ! x))) d)"
        using hk [OF x(1)] by simp
    qed
    then show ?thesis by (simp add: hm)
  qed
  from 1 2 3 4 5 show ?thesis
    unfolding well_formed_def by simp
qed

section \<open>Reinsertion into a fresh table\<close>

lemma empty_table_simps [simp]:
  "entries (empty_table n) = replicate (nat n) zero_entry"
  "nentries (empty_table n) = n"
  "size_f (empty_table n) = 0"
  by (simp_all add: empty_table_def)

lemma occupied_zero_entry [simp]: "\<not> occupied zero_entry"
  by (simp add: occupied_def zero_entry_def)

lemma occupancy_replicate_zero [simp]: "occupancy (replicate m zero_entry) = 0"
  by (simp add: occupancy_def)

lemma content_replicate_zero [simp]: "content (replicate m zero_entry) = {}"
  by (auto simp: content_def)

lemma absent_replicate_zero [simp]: "absent eqf (replicate m zero_entry) k"
  by (simp add: absent_def)

lemma well_formed_empty_table:
  assumes "3 \<le> j" "j \<le> 30"
  shows "well_formed hashf eqf (empty_table (2 ^ j))"
proof -
  have "nat ((2::int) ^ j) = 2 ^ j" by (simp add: nat_power_eq)
  then have "table_ok (empty_table (2 ^ j))"
    using cap_ok_exp [OF assms] by (simp add: table_ok_def)
  then show ?thesis
    by (simp add: well_formed_def nodup_def)
qed

lemma reinsert_loop_ok:
  assumes ct: "contract hashf eqf"
    and len: "int (length (entries h)) = nentries h"
    and nd: "nodup eqf (entries h)"
    and wf: "well_formed hashf eqf nh"
    and fresh: "\<forall>x < length (entries h). i \<le> x \<and> occupied (entries h ! x) \<longrightarrow>
                  absent eqf (entries nh) (key (entries h ! x))"
    and room: "2 * (size_f nh + int (occupancy (drop i (entries h)))) \<le> nentries nh"
  shows "\<exists>nh'. reinsert_loop (thash_put hashf eqf) h i nh = ret nh' \<and>
           well_formed hashf eqf nh' \<and> nentries nh' = nentries nh \<and>
           size_f nh' = size_f nh + int (occupancy (drop i (entries h))) \<and>
           content (entries nh') = content (entries nh) \<union> content (drop i (entries h))"
  using wf fresh room
proof (induction "length (entries h) - i" arbitrary: i nh)
  case 0
  then have "\<not> int i < nentries h" using len by simp
  then have "reinsert_loop (thash_put hashf eqf) h i nh = ret nh"
    by (subst reinsert_loop.simps) simp
  moreover have "drop i (entries h) = []" using 0 by simp
  ultimately show ?case using 0 by (simp add: occupancy_def)
next
  case (Suc m)
  let ?es = "entries h"
  let ?e = "?es ! i"
  have i: "i < length ?es" using Suc.hyps(2) by simp
  then have lt: "int i < nentries h" using len by simp
  have dr: "drop i ?es = ?e # drop (Suc i) ?es" using i by (simp add: Cons_nth_drop_Suc)
  show ?case
  proof (cases "occupied ?e")
    case False
    have "reinsert_loop (thash_put hashf eqf) h i nh = reinsert_loop (thash_put hashf eqf) h (i + 1) nh"
      using False i lt by (subst reinsert_loop.simps) (simp add: occupied_def)
    moreover have "\<exists>nh'. reinsert_loop (thash_put hashf eqf) h (Suc i) nh = ret nh' \<and>
           well_formed hashf eqf nh' \<and> nentries nh' = nentries nh \<and>
           size_f nh' = size_f nh + int (occupancy (drop (Suc i) ?es)) \<and>
           content (entries nh') = content (entries nh) \<union> content (drop (Suc i) ?es)"
    proof (rule Suc.hyps(1))
      show "m = length ?es - Suc i" using Suc.hyps(2) by simp
      show "well_formed hashf eqf nh" by (rule Suc.prems(1))
      show "\<forall>x < length ?es. Suc i \<le> x \<and> occupied (?es ! x) \<longrightarrow> absent eqf (entries nh) (key (?es ! x))"
        using Suc.prems(2) by simp
      show "2 * (size_f nh + int (occupancy (drop (Suc i) ?es))) \<le> nentries nh"
        using Suc.prems(3) False by (simp add: dr occupancy_Cons)
    qed
    ultimately show ?thesis using False by (simp add: dr occupancy_Cons content_Cons)
  next
    case True
    let ?k = "key ?e" and ?v = "val ?e"
    let ?n' = "length (entries nh)"
    have ab: "absent eqf (entries nh) ?k" using Suc.prems(2) i True by simp
    from well_formed_empty_slot [OF Suc.prems(1)] obtain e where
      e: "e < ?n'" "\<not> occupied (entries nh ! e)" by blast
    have ok: "table_ok nh" using Suc.prems(1) by (simp add: well_formed_def)
    have rm: "2 * (size_f nh + 1) \<le> nentries nh"
      using Suc.prems(3) True by (simp add: dr occupancy_Cons)
    from thash_put_insert [OF ok ab e rm, of hashf ?v] obtain d where d:
      "d < ?n'"
      "thash_put hashf eqf nh ?k ?v =
         ret (nh\<lparr>entries := (entries nh)[coff ?n' (home hashf nh ?k) d := \<lparr>valid = 1, key = ?k, val = ?v\<rparr>],
                 size_f := size_f nh + 1\<rparr>, 0, None)"
      "\<not> occupied (entries nh ! coff ?n' (home hashf nh ?k) d)"
      "\<forall>d' < d. occupied (entries nh ! coff ?n' (home hashf nh ?k) d')"
      by blast
    let ?p = "coff ?n' (home hashf nh ?k) d"
    let ?nh1 = "nh\<lparr>entries := (entries nh)[?p := \<lparr>valid = 1, key = ?k, val = ?v\<rparr>],
                  size_f := size_f nh + 1\<rparr>"
    have "0 < ?n'" using e(1) by linarith
    then have p: "?p < ?n'" by simp
    have wf1: "well_formed hashf eqf ?nh1"
      using Suc.prems(1) ct ab d(1,3,4) rm by (rule well_formed_insert)
    have step: "reinsert_loop (thash_put hashf eqf) h i nh = reinsert_loop (thash_put hashf eqf) h (i + 1) ?nh1"
      using True i lt d(2) by (subst reinsert_loop.simps) (simp add: occupied_def)
    have "\<exists>nh'. reinsert_loop (thash_put hashf eqf) h (Suc i) ?nh1 = ret nh' \<and>
           well_formed hashf eqf nh' \<and> nentries nh' = nentries ?nh1 \<and>
           size_f nh' = size_f ?nh1 + int (occupancy (drop (Suc i) ?es)) \<and>
           content (entries nh') = content (entries ?nh1) \<union> content (drop (Suc i) ?es)"
    proof (rule Suc.hyps(1))
      show "m = length ?es - Suc i" using Suc.hyps(2) by simp
      show "well_formed hashf eqf ?nh1" by (rule wf1)
      show "\<forall>x < length ?es. Suc i \<le> x \<and> occupied (?es ! x) \<longrightarrow>
              absent eqf (entries ?nh1) (key (?es ! x))"
      proof (intro allI impI)
        fix x assume x: "x < length ?es" "Suc i \<le> x \<and> occupied (?es ! x)"
        then have a: "absent eqf (entries nh) (key (?es ! x))" using Suc.prems(2) by simp
        have "\<not> eqf (key (?es ! x)) ?k"
        proof
          assume "eqf (key (?es ! x)) ?k"
          then have "x = i" using nd x i True unfolding nodup_def by blast
          with x show False by simp
        qed
        with a show "absent eqf (entries ?nh1) (key (?es ! x))"
          by (simp add: absent_insert)
      qed
      show "2 * (size_f ?nh1 + int (occupancy (drop (Suc i) ?es))) \<le> nentries ?nh1"
        using Suc.prems(3) True by (simp add: dr occupancy_Cons)
    qed
    then obtain nh' where nh':
      "reinsert_loop (thash_put hashf eqf) h (Suc i) ?nh1 = ret nh'"
      "well_formed hashf eqf nh'" "nentries nh' = nentries ?nh1"
      "size_f nh' = size_f ?nh1 + int (occupancy (drop (Suc i) ?es))"
      "content (entries nh') = content (entries ?nh1) \<union> content (drop (Suc i) ?es)"
      by blast
    have c1: "content (entries ?nh1) = insert (?k, ?v) (content (entries nh))"
      using content_fill [OF p d(3)] by simp
    have "reinsert_loop (thash_put hashf eqf) h i nh = ret nh'" using step nh'(1) by simp
    moreover have "nentries nh' = nentries nh" using nh'(3) by simp
    moreover have "size_f nh' = size_f nh + int (occupancy (drop i ?es))"
      using nh'(4) True by (simp add: dr occupancy_Cons)
    moreover have "content (entries nh') = content (entries nh) \<union> content (drop i ?es)"
      using nh'(5) c1 True by (simp add: dr content_Cons)
    ultimately show ?thesis using nh'(2) by blast
  qed
qed

section \<open>Insertion with growth\<close>

lemma thash_create_capacity_overflow:
  assumes "2 ^ 28 < capacity"
  shows "(thash_create_capacity capacity :: ('k::zero, 'v::zero) thash res) = abort IntOverflow"
proof (cases "INT_MAX < 4 * capacity")
  case True
  then show ?thesis by (simp add: thash_create_capacity_def)
next
  case False
  let ?t = "4 * capacity"
  have t: "2 ^ 30 < ?t" "?t < 2 ^ 31" using assms False by (simp_all add: INT_MAX_def)
  have np: "?t AND (?t - 1) \<noteq> 0"
  proof
    assume "?t AND (?t - 1) = 0"
    then obtain i where i: "?t = 2 ^ i" using and_pred_pow2 [of ?t] t by auto
    have "30 < i" using power_less_imp_less_exp [of "2::int" 30 i] t(1) i by simp
    moreover have "i < 31" using power_less_imp_less_exp [of "2::int" i 31] t(2) i by simp
    ultimately show False by simp
  qed
  have "create_capacity_loop (2 ^ 3) ?t = abort IntOverflow"
    using t(1) by (intro create_capacity_loop_overflow) simp_all
  then show ?thesis
    using False np t by (simp add: thash_create_capacity_def INT_MIN_def Let_def)
qed

lemma grow_arith:
  assumes "3 \<le> j" "j \<le> 28" "(2::int) ^ j = 2 * s"
  shows "spec_growth_target (s + 1) = 2 ^ (j + 2)"
    and "\<exists>j'. (3 \<le> j' \<and> j' \<le> 30 \<and> 4 * (s + 2) \<le> 2 ^ j' \<and> (3 < j' \<longrightarrow> 2 ^ (j' - 1) < 4 * (s + 2)))"
    and "\<And>j'. 3 \<le> j' \<Longrightarrow> 4 * (s + 2) \<le> 2 ^ j' \<Longrightarrow> (3 < j' \<longrightarrow> 2 ^ (j' - 1) < 4 * (s + 2)) \<Longrightarrow> j' = j + 2"
    and "- (2 ^ 29) \<le> s + 2" and "s + 2 \<le> 2 ^ 28"
proof -
  have p3: "(2::int) ^ 3 \<le> 2 ^ j" using assms(1) by (intro power_increasing) simp_all
  then have s4: "4 \<le> s" using assms(3) by simp
  have e1: "(2::int) ^ (j + 1) = 4 * s" using assms(3) by simp
  have e2: "(2::int) ^ (j + 2) = 8 * s" using assms(3) by simp
  show g: "spec_growth_target (s + 1) = 2 ^ (j + 2)"
  proof (rule spec_growth_target_eq)
    show "3 \<le> j + 2" using assms(1) by simp
    show "4 * (s + 1) \<le> 2 ^ (j + 2)" using e2 s4 by simp
    show "3 < j + 2 \<longrightarrow> 2 ^ (j + 2 - 1) < 4 * (s + 1)" using e1 by simp
  qed
  have "(2::int) ^ j \<le> 2 ^ 28" using assms(2) by (intro power_increasing) simp_all
  then have s27: "s \<le> 2 ^ 27" using assms(3) by simp
  then show "s + 2 \<le> 2 ^ 28" by simp
  show "- (2 ^ 29) \<le> s + 2" using s4 by simp
  have u: "j' = j + 2"
    if j': "3 \<le> j'" "4 * (s + 2) \<le> 2 ^ j'" "3 < j' \<longrightarrow> 2 ^ (j' - 1) < 4 * (s + 2)" for j'
  proof -
    have "(2::int) ^ (j + 1) < 2 ^ j'" using e1 j'(2) by simp
    then have lo: "j + 1 < j'" using power_less_imp_less_exp [of "2::int" "j + 1" j'] by simp
    then have "3 < j'" using assms(1) by simp
    then have "2 ^ (j' - 1) < 4 * (s + 2)" using j'(3) by blast
    then have "(2::int) ^ (j' - 1) < 2 ^ (j + 2)" using e2 s4 by simp
    then have "j' - 1 < j + 2" using power_less_imp_less_exp [of "2::int" "j' - 1" "j + 2"] by simp
    with lo show ?thesis by simp
  qed
  then show "\<And>j'. 3 \<le> j' \<Longrightarrow> 4 * (s + 2) \<le> 2 ^ j' \<Longrightarrow> (3 < j' \<longrightarrow> 2 ^ (j' - 1) < 4 * (s + 2)) \<Longrightarrow> j' = j + 2"
    by blast
  have "3 \<le> j + 2 \<and> j + 2 \<le> 30 \<and> 4 * (s + 2) \<le> 2 ^ (j + 2) \<and>
        (3 < j + 2 \<longrightarrow> 2 ^ (j + 2 - 1) < 4 * (s + 2))"
    using assms(1,2) e1 e2 s4 by simp
  then show "\<exists>j'. (3 \<le> j' \<and> j' \<le> 30 \<and> 4 * (s + 2) \<le> 2 ^ j' \<and> (3 < j' \<longrightarrow> 2 ^ (j' - 1) < 4 * (s + 2)))"
    by blast
qed

lemma trigger_size:
  assumes "well_formed hashf eqf h" "nentries h < 2 * (size_f h + 1)"
  shows "\<exists>j. 3 \<le> j \<and> j \<le> 30 \<and> nentries h = 2 ^ j \<and> length (entries h) = 2 ^ j \<and>
             (2::int) ^ j = 2 * size_f h"
proof -
  from assms(1) have ok: "table_ok h" and half: "2 * size_f h \<le> nentries h"
    by (simp_all add: well_formed_def)
  from table_ok_pow2 [OF ok] obtain j where
    j: "3 \<le> j" "j \<le> 30" "nentries h = 2 ^ j" "length (entries h) = 2 ^ j" by blast
  have "even ((2::int) ^ j)" using j(1) by simp
  then obtain m where m: "(2::int) ^ j = 2 * m" by (elim evenE)
  have "m = size_f h" using half assms(2) j(3) m by simp
  with m j show ?thesis by blast
qed

lemma thash_put_grow:
  assumes wf: "well_formed hashf eqf h" and ct: "contract hashf eqf"
    and ab: "absent eqf (entries h) k"
    and tr: "nentries h < 2 * (size_f h + 1)"
    and bd: "nentries h \<le> 2 ^ 28"
  shows "\<exists>h'. thash_put hashf eqf h k v = ret (h', 0, None) \<and>
           well_formed hashf eqf h' \<and> nentries h' = 4 * nentries h \<and>
           nentries h' = spec_growth_target (size_f h + 1) \<and>
           size_f h' = size_f h + 1 \<and>
           content (entries h') = insert (k, v) (content (entries h))"
proof -
  let ?es = "entries h"
  let ?n = "length ?es"
  from wf have ok: "table_ok h" and sz: "size_f h = int (occupancy ?es)"
    and nd: "nodup eqf ?es"
    by (simp_all add: well_formed_def)
  from trigger_size [OF wf tr] obtain j where
    j: "3 \<le> j" "j \<le> 30" "nentries h = 2 ^ j" "?n = 2 ^ j" "(2::int) ^ j = 2 * size_f h" by blast
  have j28: "j \<le> 28" using power_le_imp_le_exp [of "2::int" j 28] bd j(3) by simp
  note ga = grow_arith [OF j(1) j28 j(5)]
  from thash_create_capacity_ok [OF ga(4,5)] obtain j' where j':
    "3 \<le> j'" "4 * (size_f h + 2) \<le> 2 ^ j'" "3 < j' \<longrightarrow> 2 ^ (j' - 1) < 4 * (size_f h + 2)"
    "(thash_create_capacity (size_f h + 2) :: ('a, 'b) thash res) = ret (empty_table (2 ^ j'))"
    by blast
  have "j' = j + 2" using j'(1-3) by (rule ga(3))
  then have cc: "(thash_create_capacity (2 + size_f h) :: ('a, 'b) thash res) = ret (empty_table (2 ^ (j + 2)))"
    using j'(4) by (simp add: add.commute)
  from well_formed_empty_slot [OF wf] obtain e where e: "e < ?n" "\<not> occupied (?es ! e)" by blast
  from probe_absent [OF ok ab e, of hashf] obtain w d where d:
    "d < ?n"
    "probe eqf h k (hashf k AND word_of_int (nentries h - 1)) = ret (w, False)"
    "unat w = coff ?n (home hashf h k) d"
    "\<not> occupied (?es ! coff ?n (home hashf h k) d)"
    "\<forall>d' < d. occupied (?es ! coff ?n (home hashf h k) d')"
    by blast
  let ?p = "coff ?n (home hashf h k) d"
  let ?es1 = "?es[?p := \<lparr>valid = 1, key = k, val = v\<rparr>]"
  let ?h1 = "h\<lparr>entries := ?es1, size_f := size_f h + 1\<rparr>"
  let ?nh = "empty_table (2 ^ (j + 2)) :: ('a, 'b) thash"
  have n: "0 < ?n" using ok by (rule table_ok_length_pos)
  have p: "?p < ?n" using n by simp
  have "occupancy ?es1 + (if occupied (?es ! ?p) then 1 else 0) =
        occupancy ?es + (if occupied \<lparr>valid = 1, key = k, val = v\<rparr> then 1 else 0)"
    using p by (rule occupancy_update)
  then have oc1: "int (occupancy ?es1) = size_f h + 1" using d(4) sz by simp
  have "\<exists>nh'. reinsert_loop (thash_put hashf eqf) ?h1 0 ?nh = ret nh' \<and>
           well_formed hashf eqf nh' \<and> nentries nh' = nentries ?nh \<and>
           size_f nh' = size_f ?nh + int (occupancy (drop 0 (entries ?h1))) \<and>
           content (entries nh') = content (entries ?nh) \<union> content (drop 0 (entries ?h1))"
  proof (rule reinsert_loop_ok [OF ct])
    show "int (length (entries ?h1)) = nentries ?h1" using ok by (simp add: table_ok_def)
    show "nodup eqf (entries ?h1)" using nodup_insert [OF nd ab ct p] by simp
    show "well_formed hashf eqf ?nh"
      using j(1) j28 by (intro well_formed_empty_table) simp_all
    show "\<forall>x < length (entries ?h1). 0 \<le> x \<and> occupied (entries ?h1 ! x) \<longrightarrow>
             absent eqf (entries ?nh) (key (entries ?h1 ! x))"
      by simp
    have "(2::int) ^ (j + 2) = 8 * size_f h" using j(5) by simp
    moreover have "(2::int) ^ 3 \<le> 2 ^ j" using j(1) by (intro power_increasing) simp_all
    then have "4 \<le> size_f h" using j(5) by simp
    ultimately show "2 * (size_f ?nh + int (occupancy (drop 0 (entries ?h1)))) \<le> nentries ?nh"
      using oc1 by simp
  qed
  then obtain nh' where nh':
    "reinsert_loop (thash_put hashf eqf) ?h1 0 ?nh = ret nh'"
    "well_formed hashf eqf nh'" "nentries nh' = 2 ^ (j + 2)"
    "size_f nh' = int (occupancy ?es1)"
    "content (entries nh') = content ?es1"
    by auto
  have "thash_put hashf eqf h k v = ret (nh', 0, None)"
    using d(2,3) tr cc nh'(1)
    by (subst thash_put.simps) (simp only: rbind_ret, simp add: Let_def)
  moreover have "nentries nh' = 4 * nentries h" using nh'(3) j(3) by simp
  moreover have "nentries nh' = spec_growth_target (size_f h + 1)" using nh'(3) ga(1) by simp
  moreover have "size_f nh' = size_f h + 1" using nh'(4) oc1 by simp
  moreover have "content (entries nh') = insert (k, v) (content ?es)"
    using nh'(5) content_fill [OF p d(4)] by simp
  ultimately show ?thesis using nh'(2) by blast
qed

lemma thash_put_overflow:
  assumes wf: "well_formed hashf eqf h"
    and ab: "absent eqf (entries h) k"
    and tr: "nentries h < 2 * (size_f h + 1)"
    and bd: "2 ^ 28 < nentries h"
  shows "thash_put hashf eqf h k v = abort IntOverflow"
proof -
  let ?es = "entries h"
  let ?n = "length ?es"
  from wf have ok: "table_ok h" by (simp add: well_formed_def)
  from trigger_size [OF wf tr] obtain j where
    j: "nentries h = 2 ^ j" "(2::int) ^ j = 2 * size_f h" by blast
  have "28 < j" using power_less_imp_less_exp [of "2::int" 28 j] bd j(1) by simp
  then have "29 \<le> j" by simp
  then have "(2::int) ^ 29 \<le> 2 ^ j" by (intro power_increasing) simp_all
  then have "2 ^ 28 < size_f h + 2" using j(2) by simp
  then have "(thash_create_capacity (size_f h + 2) :: ('a, 'b) thash res) = abort IntOverflow"
    by (rule thash_create_capacity_overflow)
  then have cc: "(thash_create_capacity (2 + size_f h) :: ('a, 'b) thash res) = abort IntOverflow"
    by (simp add: add.commute)
  from well_formed_empty_slot [OF wf] obtain e where e: "e < ?n" "\<not> occupied (?es ! e)" by blast
  from probe_absent [OF ok ab e, of hashf] obtain w where
    "probe eqf h k (hashf k AND word_of_int (nentries h - 1)) = ret (w, False)"
    by blast
  then show ?thesis
    using tr cc
    by (subst thash_put.simps) (simp only: rbind_ret, simp add: Let_def)
qed

section \<open>Removal: reinsertion of the entries that follow\<close>

text \<open>
  While the loop of \<^verbatim>\<open>remove\<close> and \<^verbatim>\<open>iterator_remove\<close> re-puts the run of entries that
  follows the vacated slot, the table is not well formed. What holds at the slot \<open>q\<close> the
  loop looks at: every occupied slot is reached from its home slot, or lies in the run of
  occupied slots that starts at \<open>q\<close> (\<open>shift_reach\<close>); and some empty slot \<open>e\<close> is met
  by no scan before the scan reaches its key (\<open>before_gap\<close>), so the loop ends at \<open>e\<close> at
  the latest.
\<close>

definition run_from :: "('k, 'v) entry list \<Rightarrow> nat \<Rightarrow> nat \<Rightarrow> bool" where
  "run_from es q i \<longleftrightarrow> (\<forall>d \<le> cdist (length es) q i. occupied (es ! coff (length es) q d))"

definition shift_reach :: "('k \<Rightarrow> nat) \<Rightarrow> ('k, 'v) entry list \<Rightarrow> nat \<Rightarrow> bool" where
  "shift_reach hm es q \<longleftrightarrow>
     (\<forall>i < length es. occupied (es ! i) \<longrightarrow> reach hm es i \<or> run_from es q i)"

definition before_gap :: "('k \<Rightarrow> nat) \<Rightarrow> ('k, 'v) entry list \<Rightarrow> nat \<Rightarrow> bool" where
  "before_gap hm es e \<longleftrightarrow>
     (\<forall>i < length es. occupied (es ! i) \<longrightarrow>
        cdist (length es) (hm (key (es ! i))) i < cdist (length es) (hm (key (es ! i))) e)"

lemma coff_less' [simp]: "s < n \<Longrightarrow> coff n s d < n"
  by (simp add: coff_def)

lemma cdist_less' [simp]: "a < n \<Longrightarrow> cdist n a b < n"
  by (simp add: cdist_def)

lemma clear_nth:
  "x < length es \<Longrightarrow> occupied (es[q := (es ! q)\<lparr>valid := 0\<rparr>] ! x) \<longleftrightarrow> occupied (es ! x) \<and> x \<noteq> q"
  by (cases "x = q") simp_all

lemma clear_key:
  "key (es[q := (es ! q)\<lparr>valid := 0\<rparr>] ! x) = key (es ! x)"
  by (cases "x = q"; cases "q < length es") (simp_all add: not_less list_update_beyond)

lemma run_from_next:
  assumes n: "q < length es" "i < length es" and r: "run_from es q i" and ne: "i \<noteq> q"
  shows "run_from (es[q := (es ! q)\<lparr>valid := 0\<rparr>]) (coff (length es) q 1) i"
  unfolding run_from_def
proof (intro allI impI)
  let ?n = "length es"
  let ?es' = "es[q := (es ! q)\<lparr>valid := 0\<rparr>]"
  fix d
  assume "d \<le> cdist (length ?es') (coff ?n q 1) i"
  then have d: "d \<le> cdist ?n q i - 1" using cdist_next [OF n ne] by simp
  have pos: "0 < cdist ?n q i" using cdist_0_iff [OF n] ne by auto
  have lt: "cdist ?n q i < ?n" using n by simp
  have "Suc d \<le> cdist ?n q i" using d pos by simp
  then have o: "occupied (es ! coff ?n q (Suc d))" using r unfolding run_from_def by blast
  have "coff ?n q (Suc d) \<noteq> q"
  proof
    assume "coff ?n q (Suc d) = q"
    then have eq: "coff ?n q (Suc d) = coff ?n q 0" using n by simp
    have sd: "Suc d < ?n" using \<open>Suc d \<le> cdist ?n q i\<close> lt by simp
    have "0 < ?n" using n(1) by linarith
    with sd have "Suc d = 0" using eq by (rule coff_inj [OF n(1)])
    then show False by simp
  qed
  moreover have "coff ?n q (Suc d) < ?n" using n by simp
  ultimately have "occupied (?es' ! coff ?n q (Suc d))" using o by (simp add: clear_nth)
  moreover have "coff ?n (coff ?n q 1) d = coff ?n q (Suc d)" by (simp add: coff_coff)
  ultimately show "occupied (?es' ! coff (length ?es') (coff ?n q 1) d)" by simp
qed

lemma reach_through:
  assumes n: "q < length es" "i < length es" "hm (key (es ! i)) < length es"
    and r: "reach hm es i" and oi: "occupied (es ! i)"
    and d0: "d0 < cdist (length es) (hm (key (es ! i))) i" "coff (length es) (hm (key (es ! i))) d0 = q"
  shows "run_from es q i"
  unfolding run_from_def
proof (intro allI impI)
  let ?n = "length es"
  let ?s = "hm (key (es ! i))"
  let ?D = "cdist ?n ?s i"
  fix d assume d: "d \<le> cdist ?n q i"
  have Dn: "?D < ?n" using n by simp
  have i: "coff ?n ?s ?D = i" using n by (simp add: coff_cdist)
  have "coff ?n (coff ?n ?s d0) (?D - d0) = coff ?n ?s (d0 + (?D - d0))" by (rule coff_coff)
  then have "coff ?n q (?D - d0) = coff ?n ?s ?D" using d0 by simp
  then have "cdist ?n q (coff ?n q (?D - d0)) = cdist ?n q i" using i by simp
  then have qi: "cdist ?n q i = ?D - d0" using cdist_coff [OF n(1), of "?D - d0"] Dn by simp
  have "coff ?n (coff ?n ?s d0) d = coff ?n ?s (d0 + d)" by (rule coff_coff)
  then have e: "coff ?n q d = coff ?n ?s (d0 + d)" using d0(2) by simp
  show "occupied (es ! coff ?n q d)"
  proof (cases "d0 + d < ?D")
    case True
    then show ?thesis using r e unfolding reach_def by simp
  next
    case False
    then have "d0 + d = ?D" using d qi d0(1) by simp
    then show ?thesis using e i oi by simp
  qed
qed

lemma shift_reach_clear:
  assumes hm: "\<forall>k. hm k < length es" and q: "q < length es" and J: "shift_reach hm es q"
  shows "shift_reach hm (es[q := (es ! q)\<lparr>valid := 0\<rparr>]) (coff (length es) q 1)"
  unfolding shift_reach_def
proof (intro allI impI)
  let ?n = "length es"
  let ?es' = "es[q := (es ! q)\<lparr>valid := 0\<rparr>]"
  fix i
  assume i: "i < length ?es'" and "occupied (?es' ! i)"
  then have oi: "occupied (es ! i)" and ne: "i \<noteq> q" by (simp_all add: clear_nth)
  let ?s = "hm (key (es ! i))"
  have s: "?s < ?n" using hm by simp
  have il: "i < ?n" using i by simp
  show "reach hm ?es' i \<or> run_from ?es' (coff ?n q 1) i"
  proof (cases "run_from es q i")
    case True
    then have "run_from ?es' (coff ?n q 1) i" using q il ne by (intro run_from_next)
    then show ?thesis by simp
  next
    case False
    then have r: "reach hm es i" using J il oi unfolding shift_reach_def by blast
    have nq: "coff ?n ?s d \<noteq> q" if "d < cdist ?n ?s i" for d
      using reach_through [OF q il s r oi that] False by blast
    have "reach hm ?es' i"
    proof (rule reach_cong [of hm es i])
      show "reach hm es i" by (rule r)
      show "length ?es' = length es" by simp
      show "key (?es' ! i) = key (es ! i)" by (rule clear_key)
      fix d
      assume d: "d < cdist ?n ?s i" "occupied (es ! coff ?n ?s d)"
      have "coff ?n ?s d < ?n" using s by simp
      then show "occupied (?es' ! coff ?n ?s d)" using d nq by (simp add: clear_nth)
    qed
    then show ?thesis by simp
  qed
qed

lemma shift_reach_fill:
  assumes J: "shift_reach hm es q" and p: "p < length es" "\<not> occupied (es ! p)"
    and r: "reach hm (es[p := e]) p"
  shows "shift_reach hm (es[p := e]) q"
  unfolding shift_reach_def
proof (intro allI impI)
  let ?n = "length es"
  fix i
  assume i: "i < length (es[p := e])" and o: "occupied (es[p := e] ! i)"
  show "reach hm (es[p := e]) i \<or> run_from (es[p := e]) q i"
  proof (cases "i = p")
    case True
    with r show ?thesis by simp
  next
    case False
    then have oi: "occupied (es ! i)" using o by simp
    have mono: "occupied (es[p := e] ! x)" if "occupied (es ! x)" for x
      using that p(2) by (cases "x = p") simp_all
    from J i oi have "reach hm es i \<or> run_from es q i" unfolding shift_reach_def by simp
    then show ?thesis
    proof
      assume "reach hm es i"
      then have "reach hm (es[p := e]) i" using p(1) False p(2) by (rule reach_fill)
      then show ?thesis by simp
    next
      assume "run_from es q i"
      then have "run_from (es[p := e]) q i" unfolding run_from_def using mono by simp
      then show ?thesis by simp
    qed
  qed
qed

lemma shift_reach_done:
  assumes "shift_reach hm es q" "q < length es" "\<not> occupied (es ! q)"
  shows "\<forall>i < length es. occupied (es ! i) \<longrightarrow> reach hm es i"
proof (intro allI impI)
  fix i assume i: "i < length es" "occupied (es ! i)"
  have "\<not> run_from es q i"
  proof
    assume "run_from es q i"
    then have "occupied (es ! coff (length es) q 0)" unfolding run_from_def by blast
    with assms(2,3) show False by simp
  qed
  with assms(1) i show "reach hm es i" unfolding shift_reach_def by blast
qed

lemma shift_reach_init:
  assumes "\<forall>i < length es. occupied (es ! i) \<longrightarrow> reach hm es i"
  shows "shift_reach hm es q"
  using assms unfolding shift_reach_def by blast

lemma before_gap_init:
  assumes hm: "\<forall>k. hm k < length es" and e: "e < length es" "\<not> occupied (es ! e)"
    and r: "\<forall>i < length es. occupied (es ! i) \<longrightarrow> reach hm es i"
  shows "before_gap hm es e"
  unfolding before_gap_def
proof (intro allI impI)
  let ?n = "length es"
  fix i assume i: "i < ?n" "occupied (es ! i)"
  let ?s = "hm (key (es ! i))"
  have s: "?s < ?n" using hm by simp
  show "cdist ?n ?s i < cdist ?n ?s e"
  proof (rule ccontr)
    assume "\<not> cdist ?n ?s i < cdist ?n ?s e"
    then have le: "cdist ?n ?s e \<le> cdist ?n ?s i" by simp
    have ee: "coff ?n ?s (cdist ?n ?s e) = e" using s e(1) by (rule coff_cdist)
    show False
    proof (cases "cdist ?n ?s e < cdist ?n ?s i")
      case True
      then have "occupied (es ! coff ?n ?s (cdist ?n ?s e))"
        using r i unfolding reach_def by blast
      with ee e(2) show False by simp
    next
      case False
      with le have "cdist ?n ?s e = cdist ?n ?s i" by simp
      then have "coff ?n ?s (cdist ?n ?s e) = coff ?n ?s (cdist ?n ?s i)" by simp
      then have "e = i" using ee coff_cdist [OF s i(1)] by simp
      with e(2) i(2) show False by simp
    qed
  qed
qed

lemma before_gap_clear:
  assumes "before_gap hm es e"
  shows "before_gap hm (es[q := (es ! q)\<lparr>valid := 0\<rparr>]) e"
  using assms unfolding before_gap_def by (simp add: clear_nth clear_key)

lemma before_gap_fill:
  assumes K: "before_gap hm es e" and s: "hm k < length es" and d: "d < length es"
    and lt: "d < cdist (length es) (hm k) e"
  shows "before_gap hm (es[coff (length es) (hm k) d := \<lparr>valid = 1, key = k, val = v\<rparr>]) e"
  unfolding before_gap_def
proof (intro allI impI)
  let ?n = "length es"
  let ?p = "coff ?n (hm k) d"
  let ?es' = "es[?p := \<lparr>valid = 1, key = k, val = v\<rparr>]"
  fix i assume i: "i < length ?es'" "occupied (?es' ! i)"
  show "cdist (length ?es') (hm (key (?es' ! i))) i < cdist (length ?es') (hm (key (?es' ! i))) e"
  proof (cases "i = ?p")
    case True
    then show ?thesis using i(1) lt cdist_coff [OF s d] by simp
  next
    case False
    then show ?thesis using K i unfolding before_gap_def by simp
  qed
qed

lemma nodup_clear:
  assumes "nodup eqf es"
  shows "nodup eqf (es[q := (es ! q)\<lparr>valid := 0\<rparr>])"
  using assms unfolding nodup_def by (simp add: clear_nth clear_key)

lemma absent_clear:
  assumes "nodup eqf es" "q < length es" "occupied (es ! q)"
  shows "absent eqf (es[q := (es ! q)\<lparr>valid := 0\<rparr>]) (key (es ! q))"
  unfolding absent_def
proof (intro allI impI)
  fix i
  assume i: "i < length (es[q := (es ! q)\<lparr>valid := 0\<rparr>])"
    and "occupied (es[q := (es ! q)\<lparr>valid := 0\<rparr>] ! i)"
  then have o: "occupied (es ! i)" "i \<noteq> q" by (simp_all add: clear_nth)
  have "\<not> eqf (key (es ! q)) (key (es ! i))"
    using assms o i unfolding nodup_def by auto
  then show "\<not> eqf (key (es ! q)) (key (es[q := (es ! q)\<lparr>valid := 0\<rparr>] ! i))"
    by (simp add: clear_key)
qed

definition shift_inv ::
  "('k \<Rightarrow> 32 word) \<Rightarrow> ('k \<Rightarrow> 'k \<Rightarrow> bool) \<Rightarrow> ('k, 'v) thash \<Rightarrow> nat \<Rightarrow> nat \<Rightarrow> int \<Rightarrow> bool" where
  "shift_inv hashf eqf h q e c \<longleftrightarrow>
     table_ok h \<and> nodup eqf (entries h) \<and>
     shift_reach (home hashf h) (entries h) q \<and>
     before_gap (home hashf h) (entries h) e \<and>
     e < length (entries h) \<and> \<not> occupied (entries h ! e) \<and>
     q < length (entries h) \<and>
     size_f h = int (occupancy (entries h)) + c \<and>
     2 * size_f h \<le> nentries h"

lemma home_update [simp]:
  "home hashf (h\<lparr>entries := es\<rparr>) = home hashf h"
  "home hashf (h\<lparr>size_f := sz\<rparr>) = home hashf h"
  by (rule ext, simp add: home_def)+

lemma shift_step:
  assumes inv: "shift_inv hashf eqf h q e c" and ct: "contract hashf eqf"
    and oq: "occupied (entries h ! q)"
  shows "\<exists>h2. thash_put hashf eqf
                 (h\<lparr>entries := (entries h)[q := (entries h ! q)\<lparr>valid := 0\<rparr>],
                    size_f := size_f h - 1\<rparr>)
                 (key (entries h ! q)) (val (entries h ! q)) = ret (h2, 0, None) \<and>
           shift_inv hashf eqf h2 (coff (length (entries h)) q 1) e c \<and>
           cdist (length (entries h)) (coff (length (entries h)) q 1) e < cdist (length (entries h)) q e \<and>
           nentries h2 = nentries h \<and> length (entries h2) = length (entries h) \<and>
           content (entries h2) = content (entries h) \<and> size_f h2 = size_f h"
proof -
  let ?es = "entries h"
  let ?n = "length ?es"
  let ?k = "key (?es ! q)" and ?v = "val (?es ! q)"
  let ?es1 = "?es[q := (?es ! q)\<lparr>valid := 0\<rparr>]"
  let ?h1 = "h\<lparr>entries := ?es1, size_f := size_f h - 1\<rparr>"
  let ?s = "home hashf h ?k"
  from inv have ok: "table_ok h" and nd: "nodup eqf ?es"
    and J: "shift_reach (home hashf h) ?es q" and K: "before_gap (home hashf h) ?es e"
    and e: "e < ?n" "\<not> occupied (?es ! e)" and q: "q < ?n"
    and sz: "size_f h = int (occupancy ?es) + c" and half: "2 * size_f h \<le> nentries h"
    by (simp_all add: shift_inv_def)
  have hm: "\<forall>k. home hashf h k < ?n" using home_less [OF ok] by simp
  have hm1: "home hashf ?h1 = home hashf h" by (rule home_nentries) simp
  have ok1: "table_ok ?h1" using ok by (simp add: table_ok_def)
  have ab1: "absent eqf (entries ?h1) ?k" using absent_clear [OF nd q oq] by simp
  have q1: "q < length (entries ?h1)" "\<not> occupied (entries ?h1 ! q)"
    using q by (simp_all add: clear_nth)
  have room: "2 * (size_f ?h1 + 1) \<le> nentries ?h1" using half by simp
  from thash_put_insert [OF ok1 ab1 q1 room, of hashf ?v] obtain d where d:
    "d < ?n"
    "thash_put hashf eqf ?h1 ?k ?v =
       ret (?h1\<lparr>entries := ?es1[coff ?n ?s d := \<lparr>valid = 1, key = ?k, val = ?v\<rparr>],
               size_f := size_f ?h1 + 1\<rparr>, 0, None)"
    "\<not> occupied (?es1 ! coff ?n ?s d)"
    "\<forall>d' < d. occupied (?es1 ! coff ?n ?s d')"
    by (simp add: hm1) blast
  let ?p = "coff ?n ?s d"
  let ?es2 = "?es1[?p := \<lparr>valid = 1, key = ?k, val = ?v\<rparr>]"
  let ?h2 = "?h1\<lparr>entries := ?es2, size_f := size_f ?h1 + 1\<rparr>"
  have s: "?s < ?n" using hm by simp
  have p: "?p < ?n" using s by simp
  have hm2: "home hashf ?h2 = home hashf h" by (rule home_nentries) simp
  \<comment> \<open>the reinserted entry lands at or before the slot it came from\<close>
  have sq: "coff ?n ?s (cdist ?n ?s q) = q" using s q by (rule coff_cdist)
  have dq: "d \<le> cdist ?n ?s q"
  proof (rule ccontr)
    assume "\<not> d \<le> cdist ?n ?s q"
    then have "occupied (?es1 ! coff ?n ?s (cdist ?n ?s q))" using d(4) by simp
    then show False using sq q1(2) by simp
  qed
  have qe: "cdist ?n ?s q < cdist ?n ?s e" using K q oq unfolding before_gap_def by simp
  have de: "d < cdist ?n ?s e" using dq qe by simp
  have pe: "?p \<noteq> e"
  proof
    assume "?p = e"
    then have "cdist ?n ?s ?p = cdist ?n ?s e" by simp
    then show False using cdist_coff [OF s d(1)] de by simp
  qed
  have qne: "e \<noteq> q" using oq e(2) by auto
  have 1: "table_ok ?h2" using ok by (simp add: table_ok_def)
  have 2: "nodup eqf (entries ?h2)"
    using nodup_insert [OF nodup_clear [OF nd] _ ct, of q ?k ?p ?v] ab1 p by simp
  have r: "reach (home hashf h) ?es2 ?p"
    using reach_new [of "home hashf h" ?k ?es1 d ?v] s d by simp
  have 3: "shift_reach (home hashf ?h2) (entries ?h2) (coff ?n q 1)"
    using shift_reach_fill [OF shift_reach_clear [OF hm q J], of ?p "\<lparr>valid = 1, key = ?k, val = ?v\<rparr>"]
      p d(3) r by (simp add: hm2)
  have 4: "before_gap (home hashf ?h2) (entries ?h2) e"
    using before_gap_fill [OF before_gap_clear [OF K, of q], of ?k d ?v] s d(1) de
    by (simp add: hm2)
  have 5: "e < length (entries ?h2)" "\<not> occupied (entries ?h2 ! e)"
    using e pe by (simp_all add: clear_nth)
  have 6: "coff ?n q 1 < length (entries ?h2)" using q by simp
  have "occupancy ?es1 + (if occupied (?es ! q) then 1 else 0) =
        occupancy ?es + (if occupied ((?es ! q)\<lparr>valid := 0\<rparr>) then 1 else 0)"
    using q by (rule occupancy_update)
  then have o1: "occupancy ?es1 + 1 = occupancy ?es" using oq by simp
  have "occupancy ?es2 + (if occupied (?es1 ! ?p) then 1 else 0) =
        occupancy ?es1 + (if occupied \<lparr>valid = 1, key = ?k, val = ?v\<rparr> then 1 else 0)"
    using p by (intro occupancy_update) simp
  then have o2: "occupancy ?es2 = occupancy ?es" using d(3) o1 by simp
  have 7: "size_f ?h2 = int (occupancy (entries ?h2)) + c" using sz o2 by simp
  have 8: "2 * size_f ?h2 \<le> nentries ?h2" using half by simp
  have inv2: "shift_inv hashf eqf ?h2 (coff ?n q 1) e c"
    unfolding shift_inv_def using 1 2 3 4 5 6 7 8 by blast
  have "cdist ?n q e \<noteq> 0" using cdist_0_iff [OF q e(1)] qne by simp
  then have m: "cdist ?n (coff ?n q 1) e < cdist ?n q e"
    using cdist_next [OF q e(1) qne] by simp
  have "content ?es2 = insert (?k, ?v) (content ?es1)"
    using p d(3) by (intro content_fill) simp_all
  then have c: "content (entries ?h2) = content ?es" using content_clear [OF q oq] by simp
  from d(2) inv2 m c show ?thesis
    by (intro exI [of _ ?h2]) simp
qed

lemma shift_finish:
  assumes inv: "shift_inv hashf eqf h q e c" and nq: "\<not> occupied (entries h ! q)"
  shows "\<forall>i < length (entries h). occupied (entries h ! i) \<longrightarrow> reach (home hashf h) (entries h) i"
  using assms shift_reach_done [of "home hashf h" "entries h" q] by (simp add: shift_inv_def)

lemma remove_loop_ok:
  assumes "shift_inv hashf eqf h (unat idx) e c" and ct: "contract hashf eqf"
  shows "\<exists>h'. remove_loop hashf eqf h idx = ret h' \<and>
           table_ok h' \<and> nodup eqf (entries h') \<and>
           (\<forall>i < length (entries h'). occupied (entries h' ! i) \<longrightarrow>
                reach (home hashf h') (entries h') i) \<and>
           nentries h' = nentries h \<and> size_f h' = size_f h \<and>
           size_f h' = int (occupancy (entries h')) + c \<and>
           content (entries h') = content (entries h)"
  using assms(1)
proof (induction "cdist (length (entries h)) (unat idx) e" arbitrary: h idx rule: less_induct)
  case less
  let ?es = "entries h"
  let ?n = "length ?es"
  let ?q = "unat idx"
  from less.prems have ok: "table_ok h" and q: "?q < ?n"
    and sz: "size_f h = int (occupancy ?es) + c" and nd: "nodup eqf ?es"
    by (simp_all add: shift_inv_def)
  show ?case
  proof (cases "occupied (?es ! ?q)")
    case False
    have "remove_loop hashf eqf h idx = ret h"
      using False q by (subst remove_loop.simps) (simp add: occupied_def)
    then show ?thesis using shift_finish [OF less.prems False] ok nd sz by simp
  next
    case True
    let ?h1 = "h\<lparr>entries := ?es[?q := (?es ! ?q)\<lparr>valid := 0\<rparr>], size_f := size_f h - 1\<rparr>"
    from shift_step [OF less.prems ct True] obtain h2 where h2:
      "thash_put hashf eqf ?h1 (key (?es ! ?q)) (val (?es ! ?q)) = ret (h2, 0, None)"
      "shift_inv hashf eqf h2 (coff ?n ?q 1) e c"
      "cdist ?n (coff ?n ?q 1) e < cdist ?n ?q e"
      "nentries h2 = nentries h" "length (entries h2) = ?n"
      "content (entries h2) = content ?es" "size_f h2 = size_f h"
      by blast
    let ?idx' = "(idx + 1) AND word_of_int (nentries h2 - 1)"
    have ok2: "table_ok h2" using h2(2) by (simp add: shift_inv_def)
    have nx: "unat ?idx' = coff ?n ?q 1" using next_idx [OF ok2, of idx] h2(5) by simp
    have step: "remove_loop hashf eqf h idx = remove_loop hashf eqf h2 ?idx'"
      using True q h2(1) by (subst remove_loop.simps) (simp add: occupied_def)
    have "\<exists>h'. remove_loop hashf eqf h2 ?idx' = ret h' \<and>
           table_ok h' \<and> nodup eqf (entries h') \<and>
           (\<forall>i < length (entries h'). occupied (entries h' ! i) \<longrightarrow>
                reach (home hashf h') (entries h') i) \<and>
           nentries h' = nentries h2 \<and> size_f h' = size_f h2 \<and>
           size_f h' = int (occupancy (entries h')) + c \<and>
           content (entries h') = content (entries h2)"
    proof (rule less.hyps)
      show "cdist (length (entries h2)) (unat ?idx') e < cdist ?n ?q e"
        using h2(3,5) by (simp only: nx)
      show "shift_inv hashf eqf h2 (unat ?idx') e c" using h2(2) by (simp only: nx)
    qed
    then show ?thesis using step h2(4,6,7) by simp
  qed
qed

lemma iterator_remove_loop_ok:
  assumes "shift_inv hashf eqf h (nat idx) e c" and ct: "contract hashf eqf" and "0 \<le> idx"
  shows "\<exists>h'. iterator_remove_loop hashf eqf h idx = ret h' \<and>
           table_ok h' \<and> nodup eqf (entries h') \<and>
           (\<forall>i < length (entries h'). occupied (entries h' ! i) \<longrightarrow>
                reach (home hashf h') (entries h') i) \<and>
           nentries h' = nentries h \<and> size_f h' = size_f h \<and>
           size_f h' = int (occupancy (entries h')) + c \<and>
           content (entries h') = content (entries h)"
  using assms(1,3)
proof (induction "cdist (length (entries h)) (nat idx) e" arbitrary: h idx rule: less_induct)
  case less
  let ?es = "entries h"
  let ?n = "length ?es"
  let ?q = "nat idx"
  from less.prems have ok: "table_ok h" and q: "?q < ?n"
    and sz: "size_f h = int (occupancy ?es) + c" and nd: "nodup eqf ?es"
    by (simp_all add: shift_inv_def)
  show ?case
  proof (cases "occupied (?es ! ?q)")
    case False
    have "iterator_remove_loop hashf eqf h idx = ret h"
      using False q less.prems(2) by (subst iterator_remove_loop.simps) (simp add: occupied_def)
    then show ?thesis using shift_finish [OF less.prems(1) False] ok nd sz by simp
  next
    case True
    let ?h1 = "h\<lparr>entries := ?es[?q := (?es ! ?q)\<lparr>valid := 0\<rparr>], size_f := size_f h - 1\<rparr>"
    from shift_step [OF less.prems(1) ct True] obtain h2 where h2:
      "thash_put hashf eqf ?h1 (key (?es ! ?q)) (val (?es ! ?q)) = ret (h2, 0, None)"
      "shift_inv hashf eqf h2 (coff ?n ?q 1) e c"
      "cdist ?n (coff ?n ?q 1) e < cdist ?n ?q e"
      "nentries h2 = nentries h" "length (entries h2) = ?n"
      "content (entries h2) = content ?es" "size_f h2 = size_f h"
      by blast
    let ?idx' = "(idx + 1) AND (nentries h2 - 1)"
    have ok2: "table_ok h2" using h2(2) by (simp add: shift_inv_def)
    have nx: "nat ?idx' = coff ?n ?q 1" "0 \<le> ?idx'"
      using next_idx_int [OF ok2 less.prems(2)] h2(5) by simp_all
    have step: "iterator_remove_loop hashf eqf h idx = iterator_remove_loop hashf eqf h2 ?idx'"
      using True q h2(1) less.prems(2)
      by (subst iterator_remove_loop.simps) (simp add: occupied_def)
    have "\<exists>h'. iterator_remove_loop hashf eqf h2 ?idx' = ret h' \<and>
           table_ok h' \<and> nodup eqf (entries h') \<and>
           (\<forall>i < length (entries h'). occupied (entries h' ! i) \<longrightarrow>
                reach (home hashf h') (entries h') i) \<and>
           nentries h' = nentries h2 \<and> size_f h' = size_f h2 \<and>
           size_f h' = int (occupancy (entries h')) + c \<and>
           content (entries h') = content (entries h2)"
    proof (rule less.hyps)
      show "cdist (length (entries h2)) (nat ?idx') e < cdist ?n ?q e"
        using h2(3,5) by (simp only: nx)
      show "shift_inv hashf eqf h2 (nat ?idx') e c" using h2(2) by (simp only: nx)
      show "0 \<le> ?idx'" by (rule nx(2))
    qed
    then show ?thesis using step h2(4,6,7) by simp
  qed
qed

section \<open>The operations on well-formed tables\<close>

lemma absent_content: "absent eqf es k \<longleftrightarrow> (\<forall>kv \<in> content es. \<not> eqf k (fst kv))"
proof
  assume a: "absent eqf es k"
  show "\<forall>kv \<in> content es. \<not> eqf k (fst kv)"
  proof
    fix kv assume "kv \<in> content es"
    then obtain i where "i < length es" "occupied (es ! i)" "key (es ! i) = fst kv"
      using content_iff [of "fst kv" "snd kv" es] by auto
    with a show "\<not> eqf k (fst kv)" unfolding absent_def by auto
  qed
next
  assume a: "\<forall>kv \<in> content es. \<not> eqf k (fst kv)"
  show "absent eqf es k"
    unfolding absent_def
  proof (intro allI impI)
    fix i assume "i < length es" "occupied (es ! i)"
    then have "(key (es ! i), val (es ! i)) \<in> content es" unfolding content_iff by blast
    with a show "\<not> eqf k (key (es ! i))" by fastforce
  qed
qed

lemma absent_eq:
  assumes "contract hashf eqf" "eqf k k'" "absent eqf es k'"
  shows "absent eqf es k"
  unfolding absent_def
proof (intro allI impI notI)
  fix i assume i: "i < length es" "occupied (es ! i)" and m: "eqf k (key (es ! i))"
  have "eqf k' (key (es ! i))"
    by (rule contract_trans [OF assms(1) contract_sym [OF assms(1) assms(2)] m])
  with assms(3) i show False unfolding absent_def by blast
qed

lemma not_absent:
  "\<not> absent eqf es k \<Longrightarrow> \<exists>i < length es. occupied (es ! i) \<and> eqf k (key (es ! i))"
  unfolding absent_def by blast

lemma well_formed_reach:
  "well_formed hashf eqf h \<Longrightarrow> i < length (entries h) \<Longrightarrow> occupied (entries h ! i) \<Longrightarrow>
   reach (home hashf h) (entries h) i"
  by (simp add: well_formed_def)

lemma thash_get_found:
  assumes wf: "well_formed hashf eqf h" and ct: "contract hashf eqf"
    and i: "i < length (entries h)" "occupied (entries h ! i)" "eqf k (key (entries h ! i))"
  shows "thash_get hashf eqf h k = ret (1, Some (val (entries h ! i)))"
proof -
  from wf have "table_ok h" "nodup eqf (entries h)" by (simp_all add: well_formed_def)
  then show ?thesis
    using ct i well_formed_reach [OF wf i(1,2)] by (rule thash_get_present)
qed

lemma thash_get_missing:
  assumes wf: "well_formed hashf eqf h" and ab: "absent eqf (entries h) k"
  shows "thash_get hashf eqf h k = ret (0, None)"
proof -
  from wf have ok: "table_ok h" by (simp add: well_formed_def)
  from well_formed_empty_slot [OF wf] obtain e where
    "e < length (entries h)" "\<not> occupied (entries h ! e)" by blast
  with ok ab show ?thesis by (rule thash_get_absent)
qed

lemma thash_get_content:
  assumes wf: "well_formed hashf eqf h" and ct: "contract hashf eqf"
    and m: "(k', v) \<in> content (entries h)" "eqf k k'"
  shows "thash_get hashf eqf h k = ret (1, Some v)"
proof -
  from m(1) obtain i where "i < length (entries h)" "occupied (entries h ! i)"
    "key (entries h ! i) = k'" "val (entries h ! i) = v"
    unfolding content_iff by blast
  then show ?thesis using thash_get_found [OF wf ct, of i k] m(2) by simp
qed

lemma thash_get_content_conv:
  assumes wf: "well_formed hashf eqf h" and ct: "contract hashf eqf"
    and g: "thash_get hashf eqf h k = ret (1, Some v)"
  shows "\<exists>k'. (k', v) \<in> content (entries h) \<and> eqf k k'"
proof (cases "absent eqf (entries h) k")
  case True
  from thash_get_missing [OF wf True] g show ?thesis by simp
next
  case False
  from not_absent [OF False] obtain i where
    i: "i < length (entries h)" "occupied (entries h ! i)" "eqf k (key (entries h ! i))" by blast
  from thash_get_found [OF wf ct i] g have "val (entries h ! i) = v" by simp
  with i have "(key (entries h ! i), v) \<in> content (entries h)" unfolding content_iff by blast
  with i(3) show ?thesis by blast
qed

lemma thash_put_present:
  assumes wf: "well_formed hashf eqf h" and ct: "contract hashf eqf"
    and i: "i < length (entries h)" "occupied (entries h ! i)" "eqf k (key (entries h ! i))"
  shows "\<exists>h'. thash_put hashf eqf h k v = ret (h', 1, Some (key (entries h ! i), val (entries h ! i))) \<and>
           h' = h\<lparr>entries := (entries h)[i := (entries h ! i)\<lparr>key := k, val := v\<rparr>]\<rparr> \<and>
           well_formed hashf eqf h'"
proof -
  from wf have "table_ok h" "nodup eqf (entries h)" by (simp_all add: well_formed_def)
  then have "thash_put hashf eqf h k v =
           ret (h\<lparr>entries := (entries h)[i := (entries h ! i)\<lparr>key := k, val := v\<rparr>]\<rparr>,
                1, Some (key (entries h ! i), val (entries h ! i)))"
    using ct i well_formed_reach [OF wf i(1,2)] by (rule thash_put_update)
  then show ?thesis using well_formed_update [OF wf ct i] by simp
qed

lemma thash_put_absent:
  assumes wf: "well_formed hashf eqf h" and ct: "contract hashf eqf"
    and ab: "absent eqf (entries h) k"
    and bd: "nentries h \<le> 2 ^ 28"
  shows "\<exists>h'. thash_put hashf eqf h k v = ret (h', 0, None) \<and>
           well_formed hashf eqf h' \<and> size_f h' = size_f h + 1 \<and>
           content (entries h') = insert (k, v) (content (entries h)) \<and>
           nentries h' = (if nentries h < 2 * (size_f h + 1) then 4 * nentries h else nentries h)"
proof (cases "nentries h < 2 * (size_f h + 1)")
  case True
  from thash_put_grow [OF wf ct ab True bd, of v] True show ?thesis by auto
next
  case False
  then have room: "2 * (size_f h + 1) \<le> nentries h" by simp
  from wf have ok: "table_ok h" by (simp add: well_formed_def)
  from well_formed_empty_slot [OF wf] obtain e where
    e: "e < length (entries h)" "\<not> occupied (entries h ! e)" by blast
  from thash_put_insert [OF ok ab e room, of hashf v] obtain d where d:
    "d < length (entries h)"
    "thash_put hashf eqf h k v =
       ret (h\<lparr>entries := (entries h)[coff (length (entries h)) (home hashf h k) d :=
                                  \<lparr>valid = 1, key = k, val = v\<rparr>],
              size_f := size_f h + 1\<rparr>, 0, None)"
    "\<not> occupied (entries h ! coff (length (entries h)) (home hashf h k) d)"
    "\<forall>d' < d. occupied (entries h ! coff (length (entries h)) (home hashf h k) d')"
    by blast
  have p: "coff (length (entries h)) (home hashf h k) d < length (entries h)"
    using home_less [OF ok] by simp
  from well_formed_insert [OF wf ct ab d(1,3,4) room, of v] d(2) content_fill [OF p d(3), of k v] False
  show ?thesis by simp
qed

lemma thash_remove_present:
  assumes wf: "well_formed hashf eqf h" and ct: "contract hashf eqf"
    and i: "i < length (entries h)" "occupied (entries h ! i)" "eqf k (key (entries h ! i))"
  shows "\<exists>h'. thash_remove hashf eqf h k = ret (h', 1, Some (key (entries h ! i), val (entries h ! i))) \<and>
           well_formed hashf eqf h' \<and> nentries h' = nentries h \<and> size_f h' = size_f h - 1 \<and>
           insert (key (entries h ! i), val (entries h ! i)) (content (entries h')) = content (entries h) \<and>
           absent eqf (entries h') k"
proof -
  let ?es = "entries h"
  let ?n = "length ?es"
  let ?es1 = "?es[i := (?es ! i)\<lparr>valid := 0\<rparr>]"
  let ?h1 = "h\<lparr>entries := ?es1, size_f := size_f h - 1\<rparr>"
  from wf have ok: "table_ok h" and sz: "size_f h = int (occupancy ?es)"
    and half: "2 * size_f h \<le> nentries h" and nd: "nodup eqf ?es"
    and rc: "\<forall>i < ?n. occupied (?es ! i) \<longrightarrow> reach (home hashf h) ?es i"
    by (simp_all add: well_formed_def)
  from probe_present [OF ok nd ct i well_formed_reach [OF wf i(1,2)]] obtain w where
    w: "probe eqf h k (hashf k AND word_of_int (nentries h - 1)) = ret (w, True)" "unat w = i"
    by blast
  let ?idx = "(w + 1) AND word_of_int (nentries ?h1 - 1)"
  from well_formed_empty_slot [OF wf] obtain e where e: "e < ?n" "\<not> occupied (?es ! e)" by blast
  have hm: "\<forall>k. home hashf h k < ?n" using home_less [OF ok] by simp
  have ok1: "table_ok ?h1" using ok by (simp add: table_ok_def)
  have nx: "unat ?idx = coff ?n i 1" using next_idx [OF ok1, of w] w(2) by simp
  have "occupancy ?es1 + (if occupied (?es ! i) then 1 else 0) =
        occupancy ?es + (if occupied ((?es ! i)\<lparr>valid := 0\<rparr>) then 1 else 0)"
    using i(1) by (rule occupancy_update)
  then have o1: "int (occupancy ?es1) = size_f h - 1" using i(2) sz by simp
  have s1: "nodup eqf (entries ?h1)" using nodup_clear [OF nd, of i] by simp
  have s2: "shift_reach (home hashf ?h1) (entries ?h1) (coff ?n i 1)"
    using shift_reach_clear [OF hm i(1) shift_reach_init [OF rc]] by simp
  have s3: "before_gap (home hashf ?h1) (entries ?h1) e"
    using before_gap_clear [OF before_gap_init [OF hm e rc], of i] by simp
  have s4: "e < length (entries ?h1)" "\<not> occupied (entries ?h1 ! e)"
    using e by (simp_all add: clear_nth)
  have s5: "coff ?n i 1 < length (entries ?h1)" using i(1) by simp
  have s6: "size_f ?h1 = int (occupancy (entries ?h1)) + 0" using o1 by simp
  have s7: "2 * size_f ?h1 \<le> nentries ?h1" using half by simp
  have inv: "shift_inv hashf eqf ?h1 (unat ?idx) e 0"
    unfolding shift_inv_def nx using ok1 s1 s2 s3 s4 s5 s6 s7 by blast
  from remove_loop_ok [OF inv ct] obtain h' where h':
    "remove_loop hashf eqf ?h1 ?idx = ret h'"
    "table_ok h'" "nodup eqf (entries h')"
    "\<forall>i < length (entries h'). occupied (entries h' ! i) \<longrightarrow> reach (home hashf h') (entries h') i"
    "nentries h' = nentries ?h1" "size_f h' = size_f ?h1"
    "size_f h' = int (occupancy (entries h')) + 0"
    "content (entries h') = content (entries ?h1)"
    by blast
  have r: "thash_remove hashf eqf h k = ret (h', 1, Some (key (?es ! i), val (?es ! i)))"
    unfolding thash_remove_def using w h'(1) by (simp add: Let_def)
  have wf': "well_formed hashf eqf h'"
    unfolding well_formed_def using h'(2-7) half by simp
  have c: "insert (key (?es ! i), val (?es ! i)) (content (entries h')) = content ?es"
    using h'(8) content_clear [OF i(1,2)] by simp
  have "absent eqf ?es1 (key (?es ! i))" using nd i(1,2) by (rule absent_clear)
  with ct i(3) have "absent eqf ?es1 k" by (rule absent_eq)
  then have a: "absent eqf (entries h') k" using h'(8) by (simp add: absent_content)
  from r wf' h'(5,6) c a show ?thesis by simp
qed

lemma thash_remove_absent:
  assumes "table_ok h" "absent eqf (entries h) k"
    and "e < length (entries h)" "\<not> occupied (entries h ! e)"
  shows "thash_remove hashf eqf h k = ret (h, 0, None)"
proof -
  from probe_absent [OF assms, of hashf] obtain w where
    "probe eqf h k (hashf k AND word_of_int (nentries h - 1)) = ret (w, False)"
    by blast
  then show ?thesis by (simp add: thash_remove_def)
qed

lemma thash_iterator_remove_ok:
  assumes wf: "well_formed hashf eqf h" and ct: "contract hashf eqf"
    and i: "0 \<le> last_entry" "nat last_entry < length (entries h)"
      "occupied (entries h ! nat last_entry)"
  shows "\<exists>h'. thash_iterator_remove hashf eqf h last_entry = ret h' \<and>
           well_formed hashf eqf h' \<and> nentries h' = nentries h \<and> size_f h' = size_f h - 1 \<and>
           insert (key (entries h ! nat last_entry), val (entries h ! nat last_entry))
             (content (entries h')) = content (entries h)"
proof -
  let ?es = "entries h"
  let ?n = "length ?es"
  let ?i = "nat last_entry"
  let ?es1 = "?es[?i := (?es ! ?i)\<lparr>valid := 0\<rparr>]"
  let ?h1 = "h\<lparr>entries := ?es1\<rparr>"
  from wf have ok: "table_ok h" and sz: "size_f h = int (occupancy ?es)"
    and half: "2 * size_f h \<le> nentries h" and nd: "nodup eqf ?es"
    and rc: "\<forall>i < ?n. occupied (?es ! i) \<longrightarrow> reach (home hashf h) ?es i"
    by (simp_all add: well_formed_def)
  let ?idx = "(last_entry + 1) AND (nentries ?h1 - 1)"
  from well_formed_empty_slot [OF wf] obtain e where e: "e < ?n" "\<not> occupied (?es ! e)" by blast
  have hm: "\<forall>k. home hashf h k < ?n" using home_less [OF ok] by simp
  have ok1: "table_ok ?h1" using ok by (simp add: table_ok_def)
  have nx: "nat ?idx = coff ?n ?i 1" "0 \<le> ?idx" using next_idx_int [OF ok1 i(1)] by simp_all
  have "occupancy ?es1 + (if occupied (?es ! ?i) then 1 else 0) =
        occupancy ?es + (if occupied ((?es ! ?i)\<lparr>valid := 0\<rparr>) then 1 else 0)"
    using i(2) by (rule occupancy_update)
  then have o1: "size_f h = int (occupancy ?es1) + 1" using i(3) sz by simp
  have s1: "nodup eqf (entries ?h1)" using nodup_clear [OF nd, of ?i] by simp
  have s2: "shift_reach (home hashf ?h1) (entries ?h1) (coff ?n ?i 1)"
    using shift_reach_clear [OF hm i(2) shift_reach_init [OF rc]] by simp
  have s3: "before_gap (home hashf ?h1) (entries ?h1) e"
    using before_gap_clear [OF before_gap_init [OF hm e rc], of ?i] by simp
  have s4: "e < length (entries ?h1)" "\<not> occupied (entries ?h1 ! e)"
    using e by (simp_all add: clear_nth)
  have s5: "coff ?n ?i 1 < length (entries ?h1)" using i(2) by simp
  have s6: "size_f ?h1 = int (occupancy (entries ?h1)) + 1" using o1 by simp
  have s7: "2 * size_f ?h1 \<le> nentries ?h1" using half by simp
  have inv: "shift_inv hashf eqf ?h1 (nat ?idx) e 1"
    unfolding shift_inv_def nx(1) using ok1 s1 s2 s3 s4 s5 s6 s7 by blast
  from iterator_remove_loop_ok [OF inv ct nx(2)] obtain h2 where h2:
    "iterator_remove_loop hashf eqf ?h1 ?idx = ret h2"
    "table_ok h2" "nodup eqf (entries h2)"
    "\<forall>i < length (entries h2). occupied (entries h2 ! i) \<longrightarrow> reach (home hashf h2) (entries h2) i"
    "nentries h2 = nentries ?h1" "size_f h2 = size_f ?h1"
    "size_f h2 = int (occupancy (entries h2)) + 1"
    "content (entries h2) = content (entries ?h1)"
    by blast
  let ?h' = "h2\<lparr>size_f := size_f h2 - 1\<rparr>"
  have r: "thash_iterator_remove hashf eqf h last_entry = ret ?h'"
    unfolding thash_iterator_remove_def using i(1,2) h2(1) by (simp add: Let_def)
  have "table_ok ?h'" using h2(2) by (simp add: table_ok_def)
  then have wf': "well_formed hashf eqf ?h'"
    unfolding well_formed_def using h2(3-7) half by simp
  have c: "insert (key (?es ! ?i), val (?es ! ?i)) (content (entries ?h')) = content ?es"
    using h2(8) content_clear [OF i(2,3)] by simp
  from r wf' h2(5,6) c show ?thesis by simp
qed

section \<open>Sequences of calls, copying, clearing and iteration\<close>

text \<open>
  \<open>put_all\<close> is a caller that puts the pairs of a list one after the other, and
  \<open>iterator_calls h last_entry n\<close> a caller that calls \<^verbatim>\<open>iterator_next\<close> \<open>n\<close> times on
  the same table and collects what each call leaves in \<^verbatim>\<open>last_entry\<close>, its return code and
  the pair it writes. The iterator of the source holds a pointer to the table and the cursor
  \<^verbatim>\<open>last_entry\<close>; here the table is passed next to the cursor. \<open>load_inv\<close> is the capacity
  invariant in the source's own terms, power of two tested as the source tests it.
\<close>

definition load_inv :: "('k, 'v) thash \<Rightarrow> bool" where
  "load_inv h \<longleftrightarrow>
     8 \<le> nentries h \<and> nentries h AND (nentries h - 1) = 0 \<and> 2 * size_f h \<le> nentries h"

fun pairwise_distinct :: "('k \<Rightarrow> 'k \<Rightarrow> bool) \<Rightarrow> 'k list \<Rightarrow> bool" where
  "pairwise_distinct eqf [] = True"
| "pairwise_distinct eqf (k # ks) = ((\<forall>k' \<in> set ks. \<not> eqf k k') \<and> pairwise_distinct eqf ks)"

fun put_all ::
  "('k \<Rightarrow> 32 word) \<Rightarrow> ('k \<Rightarrow> 'k \<Rightarrow> bool) \<Rightarrow> ('k::zero, 'v::zero) thash \<Rightarrow> ('k \<times> 'v) list \<Rightarrow>
   ('k, 'v) thash res" where
  "put_all hashf eqf h [] = ret h"
| "put_all hashf eqf h ((k, v) # kvs) =
     rbind (thash_put hashf eqf h k v) (\<lambda>(h', r, old). put_all hashf eqf h' kvs)"

primrec iterator_calls ::
  "('k, 'v) thash \<Rightarrow> int \<Rightarrow> nat \<Rightarrow> (int \<times> int \<times> ('k \<times> 'v) option) list res" where
  "iterator_calls h last_entry 0 = ret []"
| "iterator_calls h last_entry (Suc n) =
     rbind (thash_iterator_next h last_entry)
       (\<lambda>(last_entry', r, out).
          rbind (iterator_calls h last_entry' n)
            (\<lambda>rs. ret ((last_entry', r, out) # rs)))"

lemma well_formed_load_inv: "well_formed hashf eqf h \<Longrightarrow> load_inv h"
  by (simp add: well_formed_def table_ok_def cap_ok_def load_inv_def)

lemma thash_create_capacity_underflow:
  assumes "capacity < - (2 ^ 29)"
  shows "(thash_create_capacity capacity :: ('k::zero, 'v::zero) thash res) = abort IntOverflow"
  using assms by (simp add: thash_create_capacity_def INT_MIN_def)

lemma thash_create_capacity_cases:
  "(thash_create_capacity capacity :: ('k::zero, 'v::zero) thash res) = abort IntOverflow \<or>
   (\<exists>j. 3 \<le> j \<and> j \<le> 30 \<and> 4 * capacity \<le> 2 ^ j \<and>
        (thash_create_capacity capacity :: ('k, 'v) thash res) = ret (empty_table (2 ^ j)))"
proof (cases "capacity < - (2 ^ 29)")
  case True
  then show ?thesis using thash_create_capacity_underflow by blast
next
  case lo: False
  show ?thesis
  proof (cases "capacity \<le> 2 ^ 28")
    case True
    from lo have "- (2 ^ 29) \<le> capacity" by simp
    from thash_create_capacity_ok [OF this True, where ?'k = 'k and ?'v = 'v]
    show ?thesis by blast
  next
    case False
    then have "2 ^ 28 < capacity" by simp
    then show ?thesis using thash_create_capacity_overflow by blast
  qed
qed

lemma thash_create_eq: "(thash_create :: ('k::zero, 'v::zero) thash res) = ret (empty_table 32)"
  by (simp add: thash_create_def thash_create_capacity_def INT_MIN_def INT_MAX_def empty_table_def)

lemma well_formed_empty_32: "well_formed hashf eqf (empty_table 32)"
  using well_formed_empty_table [of 5 hashf eqf] by simp

lemma thash_clear_ok:
  assumes "well_formed hashf eqf h"
  shows "\<exists>h'. thash_clear h = ret h' \<and> well_formed hashf eqf h' \<and> nentries h' = nentries h \<and>
           size_f h' = 0 \<and> content (entries h') = {}"
proof -
  from assms have ok: "table_ok h" by (simp add: well_formed_def)
  from table_ok_pow2 [OF ok] obtain j where
    j: "3 \<le> j" "j \<le> 30" "nentries h = 2 ^ j" "length (entries h) = 2 ^ j" by blast
  have n: "nat (nentries h) = length (entries h)" using j by (simp add: nat_power_eq)
  have "thash_clear h = ret (h\<lparr>entries := replicate (nat (nentries h)) zero_entry, size_f := 0\<rparr>)"
    using n j(3) by (simp add: thash_clear_def)
  moreover have "h\<lparr>entries := replicate (nat (nentries h)) zero_entry, size_f := 0\<rparr> =
                 h\<lparr>entries := entries (empty_table (2 ^ j) :: ('a, 'b) thash), size_f := 0\<rparr>"
    using j(3) by simp
  moreover have "well_formed hashf eqf (h\<lparr>entries := replicate (nat (nentries h)) zero_entry, size_f := 0\<rparr>)"
    using ok n by (simp add: well_formed_def table_ok_def nodup_def)
  ultimately show ?thesis by simp
qed

lemma thash_copy_ok:
  assumes wf: "well_formed hashf eqf h" and ct: "contract hashf eqf"
    and bd: "size_f h \<le> 2 ^ 28"
  shows "\<exists>h'. thash_copy hashf eqf h = ret h' \<and> well_formed hashf eqf h' \<and>
           size_f h' = size_f h \<and> content (entries h') = content (entries h)"
proof -
  from wf have ok: "table_ok h" and sz: "size_f h = int (occupancy (entries h))"
    and nd: "nodup eqf (entries h)"
    by (simp_all add: well_formed_def)
  have lo: "- (2 ^ 29) \<le> size_f h" using sz by simp
  from thash_create_capacity_ok [OF lo bd, where ?'k = 'a and ?'v = 'b] obtain j where j:
    "3 \<le> j" "j \<le> 30" "4 * size_f h \<le> 2 ^ j"
    "(thash_create_capacity (size_f h) :: ('a, 'b) thash res) = ret (empty_table (2 ^ j))"
    by blast
  let ?nh = "empty_table (2 ^ j) :: ('a, 'b) thash"
  have "\<exists>nh'. reinsert_loop (thash_put hashf eqf) h 0 ?nh = ret nh' \<and>
           well_formed hashf eqf nh' \<and> nentries nh' = nentries ?nh \<and>
           size_f nh' = size_f ?nh + int (occupancy (drop 0 (entries h))) \<and>
           content (entries nh') = content (entries ?nh) \<union> content (drop 0 (entries h))"
  proof (rule reinsert_loop_ok [OF ct])
    show "int (length (entries h)) = nentries h" using ok by (simp add: table_ok_def)
    show "nodup eqf (entries h)" by (rule nd)
    show "well_formed hashf eqf ?nh" using j(1,2) by (rule well_formed_empty_table)
    show "\<forall>x < length (entries h). 0 \<le> x \<and> occupied (entries h ! x) \<longrightarrow>
             absent eqf (entries ?nh) (key (entries h ! x))"
      by simp
    show "2 * (size_f ?nh + int (occupancy (drop 0 (entries h)))) \<le> nentries ?nh"
      using j(3) sz by simp
  qed
  then obtain nh' where "reinsert_loop (thash_put hashf eqf) h 0 ?nh = ret nh'"
    "well_formed hashf eqf nh'" "size_f nh' = size_f h" "content (entries nh') = content (entries h)"
    using sz by auto
  moreover from this have "thash_copy hashf eqf h = ret nh'" using j(4) by (simp add: thash_copy_def)
  ultimately show ?thesis by blast
qed

lemma thash_copy_overflow:
  assumes "2 ^ 28 < size_f h"
  shows "thash_copy hashf eqf h = abort IntOverflow"
  using thash_create_capacity_overflow [OF assms, where ?'k = 'a and ?'v = 'b]
  by (simp add: thash_copy_def)

lemma thash_put_fresh:
  assumes wf: "well_formed hashf eqf h" and ct: "contract hashf eqf"
    and ab: "absent eqf (entries h) k"
    and bd: "nentries h < 2 * (size_f h + 1) \<longrightarrow> nentries h \<le> 2 ^ 28"
  shows "\<exists>h'. thash_put hashf eqf h k v = ret (h', 0, None) \<and>
           well_formed hashf eqf h' \<and> size_f h' = size_f h + 1 \<and>
           content (entries h') = insert (k, v) (content (entries h)) \<and>
           nentries h' = (if nentries h < 2 * (size_f h + 1) then spec_growth_target (size_f h + 1)
                          else nentries h) \<and>
           (nentries h < 2 * (size_f h + 1) \<longrightarrow> nentries h' = 4 * nentries h)"
proof (cases "nentries h < 2 * (size_f h + 1)")
  case True
  with bd have "nentries h \<le> 2 ^ 28" by blast
  from thash_put_grow [OF wf ct ab True this, of v] True show ?thesis by auto
next
  case False
  then have room: "2 * (size_f h + 1) \<le> nentries h" by simp
  from wf have ok: "table_ok h" by (simp add: well_formed_def)
  from well_formed_empty_slot [OF wf] obtain e where
    e: "e < length (entries h)" "\<not> occupied (entries h ! e)" by blast
  from thash_put_insert [OF ok ab e room, of hashf v] obtain d where d:
    "d < length (entries h)"
    "thash_put hashf eqf h k v =
       ret (h\<lparr>entries := (entries h)[coff (length (entries h)) (home hashf h k) d :=
                                  \<lparr>valid = 1, key = k, val = v\<rparr>],
              size_f := size_f h + 1\<rparr>, 0, None)"
    "\<not> occupied (entries h ! coff (length (entries h)) (home hashf h k) d)"
    "\<forall>d' < d. occupied (entries h ! coff (length (entries h)) (home hashf h k) d')"
    by blast
  have p: "coff (length (entries h)) (home hashf h k) d < length (entries h)"
    using home_less [OF ok] by simp
  from well_formed_insert [OF wf ct ab d(1,3,4) room, of v] d(2) content_fill [OF p d(3), of k v] False
  show ?thesis by simp
qed

lemma absent_content_insert:
  assumes "absent eqf es k'" "\<not> eqf k' k" "content es' = insert (k, v) (content es)"
  shows "absent eqf es' k'"
  using assms by (simp add: absent_content)

lemma put_all_fresh:
  assumes ct: "contract hashf eqf"
  shows "well_formed hashf eqf h \<Longrightarrow> pairwise_distinct eqf (map fst kvs) \<Longrightarrow>
         (\<forall>kv \<in> set kvs. absent eqf (entries h) (fst kv)) \<Longrightarrow>
         2 * (size_f h + int (length kvs)) \<le> nentries h \<Longrightarrow>
         \<exists>h'. put_all hashf eqf h kvs = ret h' \<and> well_formed hashf eqf h' \<and>
              nentries h' = nentries h \<and> size_f h' = size_f h + int (length kvs) \<and>
              content (entries h') = content (entries h) \<union> set kvs"
proof (induction kvs arbitrary: h)
  case Nil
  then show ?case by simp
next
  case (Cons kv kvs)
  obtain k v where kv: "kv = (k, v)" by (cases kv)
  have ab: "absent eqf (entries h) k" using Cons.prems(3) kv by simp
  have room: "\<not> nentries h < 2 * (size_f h + 1)" using Cons.prems(4) by simp
  then have bd: "nentries h < 2 * (size_f h + 1) \<longrightarrow> nentries h \<le> 2 ^ 28" by simp
  from thash_put_fresh [OF Cons.prems(1) ct ab bd, of v] room obtain h1 where h1:
    "thash_put hashf eqf h k v = ret (h1, 0, None)" "well_formed hashf eqf h1"
    "size_f h1 = size_f h + 1" "content (entries h1) = insert (k, v) (content (entries h))"
    "nentries h1 = nentries h"
    by auto
  have "\<exists>h'. put_all hashf eqf h1 kvs = ret h' \<and> well_formed hashf eqf h' \<and>
              nentries h' = nentries h1 \<and> size_f h' = size_f h1 + int (length kvs) \<and>
              content (entries h') = content (entries h1) \<union> set kvs"
  proof (rule Cons.IH [OF h1(2)])
    show "pairwise_distinct eqf (map fst kvs)" using Cons.prems(2) by simp
    show "\<forall>kv \<in> set kvs. absent eqf (entries h1) (fst kv)"
    proof
      fix kv' assume m: "kv' \<in> set kvs"
      then have a: "absent eqf (entries h) (fst kv')" using Cons.prems(3) by simp
      have "\<not> eqf k (fst kv')" using Cons.prems(2) m kv by simp
      then have "\<not> eqf (fst kv') k" using contract_sym [OF ct] by blast
      with a show "absent eqf (entries h1) (fst kv')" using h1(4) by (rule absent_content_insert)
    qed
    show "2 * (size_f h1 + int (length kvs)) \<le> nentries h1"
      using Cons.prems(4) h1(3,5) by simp
  qed
  then show ?case using h1 kv by auto
qed

lemma filter_upt_Cons:
  "filter P [a..<n] = i # rest \<Longrightarrow> a \<le> i \<and> i < n \<and> rest = filter P [Suc i..<n]"
proof (induction "n - a" arbitrary: a)
  case 0
  then show ?case by simp
next
  case (Suc m)
  then have an: "a < n" by simp
  then have u: "[a..<n] = a # [Suc a..<n]" by (rule upt_conv_Cons)
  show ?case
  proof (cases "P a")
    case True
    with Suc.prems u an show ?thesis by auto
  next
    case False
    with Suc.prems u have "filter P [Suc a..<n] = i # rest" by simp
    moreover have "m = n - Suc a" using Suc.hyps(2) by simp
    ultimately have "Suc a \<le> i \<and> i < n \<and> rest = filter P [Suc i..<n]" by (rule Suc.hyps(1) [rotated])
    then show ?thesis by simp
  qed
qed

lemma thash_iterator_next_scan:
  assumes len: "int (length (entries h)) = nentries h"
  shows "a \<le> length (entries h) \<Longrightarrow>
         thash_iterator_next h (int a - 1) =
           (case filter (\<lambda>i. occupied (entries h ! i)) [a..<length (entries h)] of
              [] \<Rightarrow> ret (nentries h - 1, 0, None)
            | i # _ \<Rightarrow> ret (int i, 1, Some (key (entries h ! i), val (entries h ! i))))"
proof (induction "length (entries h) - a" arbitrary: a)
  case 0
  then have "a = length (entries h)" by simp
  then show ?case using len by (subst thash_iterator_next.simps) simp
next
  case (Suc m)
  then have an: "a < length (entries h)" by simp
  then have u: "[a..<length (entries h)] = a # [Suc a..<length (entries h)]" by (rule upt_conv_Cons)
  have lt: "\<not> nentries h \<le> int a - 1 + 1" using an len by simp
  show ?case
  proof (cases "occupied (entries h ! a)")
    case True
    then show ?thesis
      using an lt u by (subst thash_iterator_next.simps) (simp add: occupied_def)
  next
    case False
    have "thash_iterator_next h (int a - 1) = thash_iterator_next h (int (Suc a) - 1)"
      using False an lt by (subst thash_iterator_next.simps) (simp add: occupied_def)
    also have "\<dots> = (case filter (\<lambda>i. occupied (entries h ! i)) [Suc a..<length (entries h)] of
              [] \<Rightarrow> ret (nentries h - 1, 0, None)
            | i # _ \<Rightarrow> ret (int i, 1, Some (key (entries h ! i), val (entries h ! i))))"
      using Suc.hyps(2) an by (intro Suc.hyps(1)) simp_all
    finally show ?thesis using False u by simp
  qed
qed

lemma iterator_calls_scan:
  assumes len: "int (length (entries h)) = nentries h"
  shows "a \<le> length (entries h) \<Longrightarrow>
         iterator_calls h (int a - 1) n =
           ret (map (\<lambda>i. (int i, 1, Some (key (entries h ! i), val (entries h ! i))))
                  (take n (filter (\<lambda>i. occupied (entries h ! i)) [a..<length (entries h)])) @
                replicate (n - length (filter (\<lambda>i. occupied (entries h ! i)) [a..<length (entries h)]))
                  (nentries h - 1, 0, None))"
proof (induction n arbitrary: a)
  case 0
  then show ?case by simp
next
  case (Suc n)
  let ?N = "length (entries h)"
  let ?P = "\<lambda>i. occupied (entries h ! i)"
  let ?f = "\<lambda>i. (int i, 1::int, Some (key (entries h ! i), val (entries h ! i)))"
  let ?end = "(nentries h - 1, 0::int, None :: ('a \<times> 'b) option)"
  show ?case
  proof (cases "filter ?P [a..<?N]")
    case Nil
    then have nx: "thash_iterator_next h (int a - 1) = ret ?end"
      using thash_iterator_next_scan [OF len Suc.prems] by simp
    have "nentries h - 1 = int ?N - 1" using len by simp
    moreover have "iterator_calls h (int ?N - 1) n =
           ret (map ?f (take n (filter ?P [?N..<?N])) @
                replicate (n - length (filter ?P [?N..<?N])) ?end)"
      by (rule Suc.IH) simp
    ultimately have "iterator_calls h (nentries h - 1) n = ret (replicate n ?end)" by simp
    then show ?thesis using nx Nil by simp
  next
    case (Cons i rest)
    then have nx: "thash_iterator_next h (int a - 1) = ret (?f i)"
      using thash_iterator_next_scan [OF len Suc.prems] by simp
    from filter_upt_Cons [OF Cons] have i: "i < ?N" "rest = filter ?P [Suc i..<?N]" by simp_all
    have "iterator_calls h (int (Suc i) - 1) n =
           ret (map ?f (take n (filter ?P [Suc i..<?N])) @
                replicate (n - length (filter ?P [Suc i..<?N])) ?end)"
      using i(1) by (intro Suc.IH) simp
    then have "iterator_calls h (int i) n = ret (map ?f (take n rest) @ replicate (n - length rest) ?end)"
      using i(2) by simp
    then show ?thesis using nx Cons by simp
  qed
qed

section \<open>Facts about the cursor, key lists and concrete tables\<close>

lemma thash_iterator_next_found:
  "thash_iterator_next h last_entry = ret (le, 1, out) \<Longrightarrow>
   0 \<le> le \<and> nat le < length (entries h) \<and> occupied (entries h ! nat le) \<and>
   out = Some (key (entries h ! nat le), val (entries h ! nat le))"
proof (induction h last_entry rule: thash_iterator_next.induct)
  case (1 h last_entry)
  show ?case
  proof (cases "nentries h \<le> last_entry + 1")
    case True
    then show ?thesis using "1.prems" by (subst (asm) thash_iterator_next.simps) simp
  next
    case False
    note nend = this
    show ?thesis
    proof (cases "0 \<le> last_entry + 1 \<and> nat (last_entry + 1) < length (entries h)")
      case False
      then show ?thesis using "1.prems" nend
        by (subst (asm) thash_iterator_next.simps) (auto simp: abort_def ret_def)
    next
      case True
      show ?thesis
      proof (cases "valid (entries h ! nat (last_entry + 1)) \<noteq> 0")
        case v: True
        then have e: "thash_iterator_next h last_entry =
            ret (last_entry + 1, 1, Some (key (entries h ! nat (last_entry + 1)),
                                          val (entries h ! nat (last_entry + 1))))"
          using nend True by (subst thash_iterator_next.simps) simp
        from "1.prems" [symmetric] e have "ret (le, 1::int, out) =
            ret (last_entry + 1, 1, Some (key (entries h ! nat (last_entry + 1)),
                                          val (entries h ! nat (last_entry + 1))))"
          by (rule trans)
        then have "le = last_entry + 1"
          "out = Some (key (entries h ! nat (last_entry + 1)), val (entries h ! nat (last_entry + 1)))"
          by (simp_all only: ret_inject prod.inject)
        then show ?thesis using True v by (simp add: occupied_def)
      next
        case v: False
        then have "thash_iterator_next h last_entry = thash_iterator_next h (last_entry + 1)"
          using nend True by (subst thash_iterator_next.simps) simp
        with "1.prems" have "thash_iterator_next h (last_entry + 1) = ret (le, 1, out)" by simp
        then show ?thesis using "1.IH" nend True v by simp
      qed
    qed
  qed
qed

lemma pairwise_distinct_take:
  "pairwise_distinct eqf ks \<Longrightarrow> pairwise_distinct eqf (take m ks)"
proof (induction ks arbitrary: m)
  case Nil
  then show ?case by simp
next
  case (Cons a ks)
  then show ?case by (cases m) (auto dest: in_set_takeD)
qed

lemma pairwise_distinct_last:
  "pairwise_distinct eqf (ks @ [k]) \<Longrightarrow> \<forall>k' \<in> set ks. \<not> eqf k' k"
  by (induction ks) auto

text \<open>
  Concrete tables of eight slots over 32-bit keys and values, with the identity as hash
  function and equality as key equality: \<open>wit_table\<close> holds key 5 in its home slot;
  \<open>wit_table2\<close> holds in addition key 13, which collides with 5 and sits one slot further;
  \<open>wit_table4\<close> is half full. \<open>wit_pairs\<close> are 17 pairs with different keys.
\<close>

definition wit_table :: "(32 word, 32 word) thash" where
  "wit_table =
     \<lparr>entries = [zero_entry, zero_entry, zero_entry, zero_entry, zero_entry,
                 \<lparr>valid = 1, key = 5, val = 50\<rparr>, zero_entry, zero_entry],
      nentries = 8, size_f = 1\<rparr>"

definition wit_table2 :: "(32 word, 32 word) thash" where
  "wit_table2 =
     \<lparr>entries = [zero_entry, zero_entry, zero_entry, zero_entry, zero_entry,
                 \<lparr>valid = 1, key = 5, val = 50\<rparr>, \<lparr>valid = 1, key = 13, val = 130\<rparr>, zero_entry],
      nentries = 8, size_f = 2\<rparr>"

definition wit_table4 :: "(32 word, 32 word) thash" where
  "wit_table4 =
     \<lparr>entries = [\<lparr>valid = 1, key = 0, val = 10\<rparr>, \<lparr>valid = 1, key = 1, val = 11\<rparr>,
                 \<lparr>valid = 1, key = 2, val = 12\<rparr>, \<lparr>valid = 1, key = 3, val = 13\<rparr>,
                 zero_entry, zero_entry, zero_entry, zero_entry],
      nentries = 8, size_f = 4\<rparr>"

definition wit_pairs :: "(32 word \<times> 32 word) list" where
  "wit_pairs = [(0, 0), (1, 10), (2, 20), (3, 30), (4, 40), (5, 50), (6, 60), (7, 70), (8, 80),
                (9, 90), (10, 100), (11, 110), (12, 120), (13, 130), (14, 140), (15, 150),
                (16, 160)]"

lemma wit_contract: "contract (\<lambda>k :: 32 word. k) (=)"
  unfolding contract_def by simp

lemma less_8_cases: "i < (8::nat) \<Longrightarrow> i = 0 \<or> i = 1 \<or> i = 2 \<or> i = 3 \<or> i = 4 \<or> i = 5 \<or> i = 6 \<or> i = 7"
  by arith

lemma wit_table2_wf: "well_formed (\<lambda>k. k) (=) wit_table2"
proof -
  have 1: "table_ok wit_table2"
    by (simp add: table_ok_def cap_ok_def wit_table2_def)
  have 2: "size_f wit_table2 = int (occupancy (entries wit_table2))"
    by (simp add: wit_table2_def occupancy_def occupied_def zero_entry_def)
  have 3: "2 * size_f wit_table2 \<le> nentries wit_table2"
    by (simp add: wit_table2_def)
  have occ: "i = 5 \<or> i = 6" if "i < 8" "occupied (entries wit_table2 ! i)" for i
    using less_8_cases [OF that(1)] that(2)
    by (auto simp: wit_table2_def occupied_def zero_entry_def)
  have 4: "nodup (=) (entries wit_table2)"
    unfolding nodup_def
  proof (intro allI impI)
    fix i j
    assume "i < length (entries wit_table2)" "j < length (entries wit_table2)"
      and c: "occupied (entries wit_table2 ! i) \<and> occupied (entries wit_table2 ! j) \<and>
           key (entries wit_table2 ! i) = key (entries wit_table2 ! j)"
    then have "i < 8" "j < 8" by (simp_all add: wit_table2_def)
    with c have "i = 5 \<or> i = 6" "j = 5 \<or> j = 6" using occ by blast+
    with c show "i = j" by (auto simp: wit_table2_def)
  qed
  have 5: "reach (home (\<lambda>k. k) wit_table2) (entries wit_table2) i"
    if "i < length (entries wit_table2)" "occupied (entries wit_table2 ! i)" for i
  proof -
    from that have "i < 8" by (simp add: wit_table2_def)
    with that(2) have "i = 5 \<or> i = 6" using occ by blast
    then show ?thesis
      by (auto simp: reach_def home_def cdist_def coff_def wit_table2_def occupied_def)
  qed
  from 1 2 3 4 5 show ?thesis unfolding well_formed_def by blast
qed

lemma wit_table4_wf: "well_formed (\<lambda>k. k) (=) wit_table4"
proof -
  have 1: "table_ok wit_table4"
    by (simp add: table_ok_def cap_ok_def wit_table4_def)
  have 2: "size_f wit_table4 = int (occupancy (entries wit_table4))"
    by (simp add: wit_table4_def occupancy_def occupied_def zero_entry_def)
  have 3: "2 * size_f wit_table4 \<le> nentries wit_table4"
    by (simp add: wit_table4_def)
  have occ: "i = 0 \<or> i = 1 \<or> i = 2 \<or> i = 3" if "i < 8" "occupied (entries wit_table4 ! i)" for i
    using less_8_cases [OF that(1)] that(2)
    by (auto simp: wit_table4_def occupied_def zero_entry_def)
  have 4: "nodup (=) (entries wit_table4)"
    unfolding nodup_def
  proof (intro allI impI)
    fix i j
    assume "i < length (entries wit_table4)" "j < length (entries wit_table4)"
      and c: "occupied (entries wit_table4 ! i) \<and> occupied (entries wit_table4 ! j) \<and>
           key (entries wit_table4 ! i) = key (entries wit_table4 ! j)"
    then have "i < 8" "j < 8" by (simp_all add: wit_table4_def)
    with c have "i = 0 \<or> i = 1 \<or> i = 2 \<or> i = 3" "j = 0 \<or> j = 1 \<or> j = 2 \<or> j = 3"
      using occ by blast+
    with c show "i = j" by (auto simp: wit_table4_def)
  qed
  have 5: "reach (home (\<lambda>k. k) wit_table4) (entries wit_table4) i"
    if "i < length (entries wit_table4)" "occupied (entries wit_table4 ! i)" for i
  proof -
    from that have "i < 8" by (simp add: wit_table4_def)
    with that(2) have "i = 0 \<or> i = 1 \<or> i = 2 \<or> i = 3" using occ by blast
    then show ?thesis
      by (auto simp: reach_def home_def cdist_def coff_def wit_table4_def occupied_def)
  qed
  from 1 2 3 4 5 show ?thesis unfolding well_formed_def by blast
qed

lemma wit_table2_absent: "absent (=) (entries wit_table2) 21"
  unfolding absent_def
proof (intro allI impI)
  fix i assume "i < length (entries wit_table2)" "occupied (entries wit_table2 ! i)"
  then have "i < 8" "occupied (entries wit_table2 ! i)" by (simp_all add: wit_table2_def)
  then have "i = 5 \<or> i = 6"
    using less_8_cases [of i] by (auto simp: wit_table2_def occupied_def zero_entry_def)
  then show "21 \<noteq> key (entries wit_table2 ! i)" by (auto simp: wit_table2_def)
qed

lemma wit_table4_absent: "absent (=) (entries wit_table4) 4"
  unfolding absent_def
proof (intro allI impI)
  fix i assume "i < length (entries wit_table4)" "occupied (entries wit_table4 ! i)"
  then have "i < 8" "occupied (entries wit_table4 ! i)" by (simp_all add: wit_table4_def)
  then have "i = 0 \<or> i = 1 \<or> i = 2 \<or> i = 3"
    using less_8_cases [of i] by (auto simp: wit_table4_def occupied_def zero_entry_def)
  then show "4 \<noteq> key (entries wit_table4 ! i)" by (auto simp: wit_table4_def)
qed

text \<open>
  \<open>big_table\<close> has \<open>2^29\<close> slots, of which the first \<open>2^28\<close> hold the keys
  \<open>0, \<dots>, 2^28 - 1\<close> in their home slots. It is well formed, and half full.
\<close>

definition big_entries :: "(32 word, 32 word) entry list" where
  "big_entries =
     map (\<lambda>i. if i < 268435456 then \<lparr>valid = 1, key = word_of_nat i, val = 0\<rparr> else zero_entry)
       [0..<536870912]"

definition big_table :: "(32 word, 32 word) thash" where
  "big_table = \<lparr>entries = big_entries, nentries = 536870912, size_f = 268435456\<rparr>"

lemma big_length: "length big_entries = 536870912"
  by (simp add: big_entries_def)

lemma big_nth:
  "i < 536870912 \<Longrightarrow>
   big_entries ! i = (if i < 268435456 then \<lparr>valid = 1, key = word_of_nat i, val = 0\<rparr> else zero_entry)"
  by (simp add: big_entries_def)

lemma big_occupied: "i < 536870912 \<Longrightarrow> occupied (big_entries ! i) \<longleftrightarrow> i < 268435456"
  by (simp add: big_nth)

lemma big_key: "i < 268435456 \<Longrightarrow> unat (key (big_entries ! i)) = i"
proof -
  assume i: "i < 268435456"
  then have "i mod 4294967296 = i" by simp
  with i show ?thesis by (simp add: big_nth unat_of_nat)
qed

lemma occupancy_append: "occupancy (xs @ ys) = occupancy xs + occupancy ys"
  by (simp add: occupancy_def)

lemma big_occupancy: "occupancy big_entries = 268435456"
proof -
  let ?g = "\<lambda>i. if i < 268435456 then \<lparr>valid = 1, key = word_of_nat i :: 32 word, val = 0 :: 32 word\<rparr>
                 else zero_entry"
  have "[0..<268435456 + 268435456] = [0..<268435456] @ [268435456..<268435456 + 268435456]"
    by (rule upt_add_eq_append) simp
  then have sp: "[0..<536870912] = [0..<268435456] @ [268435456..<536870912]"
    by (simp del: upt_rec_numeral)
  have a: "filter occupied (map ?g [0..<268435456]) = map ?g [0..<268435456]"
    by (rule filter_True) (auto simp del: upt_rec_numeral)
  have b: "filter occupied (map ?g [268435456..<536870912]) = []"
    by (rule filter_False) (auto simp del: upt_rec_numeral)
  have "occupancy (map ?g [0..<268435456]) = 268435456" unfolding occupancy_def a by simp
  moreover have "occupancy (map ?g [268435456..<536870912]) = 0" unfolding occupancy_def b by simp
  ultimately show ?thesis
    unfolding big_entries_def sp map_append occupancy_append by (simp del: upt_rec_numeral)
qed

lemma big_table_wf: "well_formed (\<lambda>k. k) (=) big_table"
proof -
  have 1: "table_ok big_table"
    by (simp add: table_ok_def cap_ok_def big_table_def big_length)
  have 2: "size_f big_table = int (occupancy (entries big_table))"
    by (simp add: big_table_def big_occupancy)
  have 3: "2 * size_f big_table \<le> nentries big_table" by (simp add: big_table_def)
  have 4: "nodup (=) (entries big_table)"
    unfolding nodup_def
  proof (intro allI impI)
    fix i j
    assume i: "i < length (entries big_table)" and j: "j < length (entries big_table)"
      and c: "occupied (entries big_table ! i) \<and> occupied (entries big_table ! j) \<and>
           key (entries big_table ! i) = key (entries big_table ! j)"
    from i j c have "i < 268435456" "j < 268435456"
      by (simp_all add: big_table_def big_length big_occupied)
    moreover from c have "unat (key (big_entries ! i)) = unat (key (big_entries ! j))"
      by (simp add: big_table_def)
    ultimately show "i = j" by (simp add: big_key)
  qed
  have 5: "reach (home (\<lambda>k. k) big_table) (entries big_table) i"
    if "i < length (entries big_table)" "occupied (entries big_table ! i)" for i
  proof -
    from that have i: "i < 268435456" by (simp add: big_table_def big_length big_occupied)
    have "home (\<lambda>k. k) big_table (key (big_entries ! i)) = unat (key (big_entries ! i)) mod 536870912"
      using home_mod [OF 1, of "\<lambda>k. k"] by (simp add: big_table_def big_length)
    also have "\<dots> = i" using i by (simp add: big_key)
    finally have "cdist 536870912 (home (\<lambda>k. k) big_table (key (big_entries ! i))) i = 0"
      using i by simp
    then show ?thesis by (simp add: reach_def big_table_def big_length)
  qed
  from 1 2 3 4 5 show ?thesis unfolding well_formed_def by blast
qed

lemma big_table_absent: "absent (=) (entries big_table) 268435456"
  unfolding absent_def
proof (intro allI impI)
  fix i assume "i < length (entries big_table)" "occupied (entries big_table ! i)"
  then have i: "i < 268435456" by (simp add: big_table_def big_length big_occupied)
  show "(268435456 :: 32 word) \<noteq> key (entries big_table ! i)"
  proof
    assume "(268435456 :: 32 word) = key (entries big_table ! i)"
    then have "unat (268435456 :: 32 word) = unat (key (big_entries ! i))"
      by (simp add: big_table_def)
    with i show False by (simp add: big_key)
  qed
qed

section \<open>Claims\<close>

text \<open>
  C1: in a well-formed table whose slot \<open>i\<close> holds a key equal to \<open>k\<close>, \<^verbatim>\<open>remove(k)\<close>
  returns 1 with the pair stored in that slot, leaves a well-formed table whose size is one
  less, in which \<^verbatim>\<open>get(k)\<close> returns 0, and in which every key not equal to \<open>k\<close> that
  \<^verbatim>\<open>get\<close> found before is still found with the same value.
\<close>

theorem remove_present_correct:
  assumes wf: "well_formed hashf eqf h" and ct: "contract hashf eqf"
    and i: "i < length (entries h)" "occupied (entries h ! i)" "eqf k (key (entries h ! i))"
  shows "\<exists>h'. thash_remove hashf eqf h k =
                 ret (h', 1, Some (key (entries h ! i), val (entries h ! i))) \<and>
              well_formed hashf eqf h' \<and>
              thash_size h' = thash_size h - 1 \<and>
              thash_get hashf eqf h' k = ret (0, None) \<and>
              (\<forall>k' v'. \<not> eqf k k' \<longrightarrow> thash_get hashf eqf h k' = ret (1, Some v') \<longrightarrow>
                         thash_get hashf eqf h' k' = ret (1, Some v'))"
proof -
  let ?ki = "key (entries h ! i)" and ?vi = "val (entries h ! i)"
  from thash_remove_present [OF wf ct i] obtain h' where h':
    "thash_remove hashf eqf h k = ret (h', 1, Some (?ki, ?vi))"
    "well_formed hashf eqf h'" "size_f h' = size_f h - 1"
    "insert (?ki, ?vi) (content (entries h')) = content (entries h)"
    "absent eqf (entries h') k"
    by blast
  have gone: "thash_get hashf eqf h' k = ret (0, None)"
    using h'(2,5) by (rule thash_get_missing)
  have others: "thash_get hashf eqf h' k' = ret (1, Some v')"
    if ne: "\<not> eqf k k'" and g: "thash_get hashf eqf h k' = ret (1, Some v')" for k' v'
  proof -
    from thash_get_content_conv [OF wf ct g] obtain k'' where
      k'': "(k'', v') \<in> content (entries h)" "eqf k' k''" by blast
    have "k'' \<noteq> ?ki"
    proof
      assume "k'' = ?ki"
      then have "eqf k' ?ki" using k''(2) by simp
      then have "eqf k k'" using i(3) contract_sym [OF ct] contract_trans [OF ct] by blast
      with ne show False by simp
    qed
    then have "(k'', v') \<in> content (entries h')" using k''(1) h'(4) by auto
    then show ?thesis using k''(2) by (intro thash_get_content [OF h'(2) ct])
  qed
  from h'(1,2,3) gone others show ?thesis
    by (intro exI [of _ h']) (simp add: thash_size_def)
qed

theorem remove_present_correct_witness:
  "well_formed (\<lambda>k. k) (=) wit_table2 \<and> contract (\<lambda>k :: 32 word. k) (=) \<and>
   (5::nat) < length (entries wit_table2) \<and> occupied (entries wit_table2 ! 5) \<and>
   (5 :: 32 word) = key (entries wit_table2 ! 5) \<and>
   thash_get (\<lambda>k. k) (=) wit_table2 13 = ret (1, Some 130) \<and>
   (\<exists>h'. thash_remove (\<lambda>k. k) (=) wit_table2 5 = ret (h', 1, Some (5, 50)) \<and>
         well_formed (\<lambda>k. k) (=) h' \<and> thash_size h' = 1 \<and>
         thash_get (\<lambda>k. k) (=) h' 5 = ret (0, None) \<and>
         thash_get (\<lambda>k. k) (=) h' 13 = ret (1, Some 130))"
proof -
  have i: "(5::nat) < length (entries wit_table2)" "occupied (entries wit_table2 ! 5)"
    "(5 :: 32 word) = key (entries wit_table2 ! 5)"
    by (simp_all add: wit_table2_def occupied_def)
  have j: "(6::nat) < length (entries wit_table2)" "occupied (entries wit_table2 ! 6)"
    "(13 :: 32 word) = key (entries wit_table2 ! 6)"
    by (simp_all add: wit_table2_def occupied_def)
  have "val (entries wit_table2 ! 6) = 130" by (simp add: wit_table2_def)
  with thash_get_found [OF wit_table2_wf wit_contract j]
  have g: "thash_get (\<lambda>k. k) (=) wit_table2 13 = ret (1, Some 130)" by (simp only:)
  from remove_present_correct [OF wit_table2_wf wit_contract i] obtain h' where h':
    "thash_remove (\<lambda>k. k) (=) wit_table2 5 =
       ret (h', 1, Some (key (entries wit_table2 ! 5), val (entries wit_table2 ! 5)))"
    "well_formed (\<lambda>k. k) (=) h'" "thash_size h' = thash_size wit_table2 - 1"
    "thash_get (\<lambda>k. k) (=) h' 5 = ret (0, None)"
    "\<forall>k' v'. \<not> 5 = k' \<longrightarrow> thash_get (\<lambda>k. k) (=) wit_table2 k' = ret (1, Some v') \<longrightarrow>
                         thash_get (\<lambda>k. k) (=) h' k' = ret (1, Some v')"
    by blast
  from h'(5) g have "thash_get (\<lambda>k. k) (=) h' 13 = ret (1, Some 130)" by simp
  moreover have "thash_remove (\<lambda>k. k) (=) wit_table2 5 = ret (h', 1, Some (5, 50))"
    using h'(1) by (simp add: wit_table2_def)
  moreover have "thash_size h' = 1" using h'(3) by (simp add: thash_size_def wit_table2_def)
  ultimately show ?thesis using wit_table2_wf wit_contract i g h'(2,4) by blast
qed

text \<open>
  C2: on a well-formed table \<^verbatim>\<open>put(k, v)\<close> returns, and \<^verbatim>\<open>get(k)\<close> on the resulting table
  returns 1 with the value \<open>v\<close>, in every case but one: the put of an absent key that must
  grow a table of more than \<open>2^28\<close> slots. There \<^verbatim>\<open>create_capacity\<close> is called with more
  than \<open>2^28\<close>, its doubling loop (\<^verbatim>\<open>nentries *= 2\<close>) leaves the range of \<^verbatim>\<open>int\<close> before it
  reaches the power of two it looks for, and the put returns no table, so that no
  \<^verbatim>\<open>get\<close> can follow it. The comments of \<^verbatim>\<open>create_capacity\<close> (room for \<^verbatim>\<open>capacity\<close> entries
  without rehashing, a power of two) and its \<^verbatim>\<open>assert\<close> say what the loop is to reach.
  The second theorem evaluates the put on a table of \<open>2^29\<close> slots holding \<open>2^28\<close> entries,
  where it fails, and on a table of 8 slots, where it succeeds.
\<close>

theorem put_then_get_overflow:
  assumes wf: "well_formed hashf eqf h" and ct: "contract hashf eqf"
  shows "if absent eqf (entries h) k \<and> nentries h < 2 * (size_f h + 1) \<and> 2 ^ 28 < nentries h
         then thash_put hashf eqf h k v = abort IntOverflow
         else (\<exists>h' r old. thash_put hashf eqf h k v = ret (h', r, old) \<and>
                           thash_get hashf eqf h' k = ret (1, Some v))"
proof (cases "absent eqf (entries h) k")
  case True
  show ?thesis
  proof (cases "nentries h < 2 * (size_f h + 1) \<and> 2 ^ 28 < nentries h")
    case big: True
    then have "thash_put hashf eqf h k v = abort IntOverflow"
      using thash_put_overflow [OF wf True, of v] by blast
    with True big show ?thesis by (simp only: simp_thms if_True)
  next
    case small: False
    then have "nentries h < 2 * (size_f h + 1) \<longrightarrow> nentries h \<le> 2 ^ 28" by fastforce
    from thash_put_fresh [OF wf ct True this, of v] obtain h' where h':
      "thash_put hashf eqf h k v = ret (h', 0, None)" "well_formed hashf eqf h'"
      "content (entries h') = insert (k, v) (content (entries h))"
      by blast
    have "(k, v) \<in> content (entries h')" using h'(3) by simp
    then have "thash_get hashf eqf h' k = ret (1, Some v)"
      using contract_refl [OF ct] by (intro thash_get_content [OF h'(2) ct])
    with h'(1) have "\<exists>h' r old. thash_put hashf eqf h k v = ret (h', r, old) \<and>
                           thash_get hashf eqf h' k = ret (1, Some v)" by blast
    with small show ?thesis by (simp only: simp_thms if_False)
  qed
next
  case False
  from not_absent [OF False] obtain i where
    i: "i < length (entries h)" "occupied (entries h ! i)" "eqf k (key (entries h ! i))" by blast
  let ?h' = "h\<lparr>entries := (entries h)[i := (entries h ! i)\<lparr>key := k, val := v\<rparr>]\<rparr>"
  from thash_put_present [OF wf ct i, of v] have p:
    "thash_put hashf eqf h k v = ret (?h', 1, Some (key (entries h ! i), val (entries h ! i)))"
    "well_formed hashf eqf ?h'"
    by simp_all
  have "thash_get hashf eqf ?h' k = ret (1, Some (val (entries ?h' ! i)))"
    using i(1,2) contract_refl [OF ct] by (intro thash_get_found [OF p(2) ct]) simp_all
  then have "thash_get hashf eqf ?h' k = ret (1, Some v)" using i(1) by simp
  with p(1) have "\<exists>h' r old. thash_put hashf eqf h k v = ret (h', r, old) \<and>
                           thash_get hashf eqf h' k = ret (1, Some v)" by blast
  with False show ?thesis by (simp only: simp_thms if_False)
qed

theorem put_then_get_overflow_witness:
  "well_formed (\<lambda>k. k) (=) big_table \<and> contract (\<lambda>k :: 32 word. k) (=) \<and>
   absent (=) (entries big_table) 268435456 \<and>
   nentries big_table = 2 ^ 29 \<and> size_f big_table = 2 ^ 28 \<and>
   thash_put (\<lambda>k. k) (=) big_table 268435456 (7 :: 32 word) = abort IntOverflow \<and>
   \<not> (\<exists>h' r old. thash_put (\<lambda>k. k) (=) big_table 268435456 7 = ret (h', r, old) \<and>
                  thash_get (\<lambda>k. k) (=) h' 268435456 = ret (1, Some 7)) \<and>
   well_formed (\<lambda>k. k) (=) wit_table2 \<and>
   (\<exists>h' r old. thash_put (\<lambda>k. k) (=) wit_table2 21 210 = ret (h', r, old) \<and>
                thash_get (\<lambda>k. k) (=) h' 21 = ret (1, Some 210))"
proof -
  have sz: "nentries big_table = 2 ^ 29" "size_f big_table = 2 ^ 28"
    by (simp_all add: big_table_def)
  have "thash_put (\<lambda>k. k) (=) big_table 268435456 (7 :: 32 word) = abort IntOverflow"
    using put_then_get_overflow [OF big_table_wf wit_contract, of 268435456 7] big_table_absent sz
    by simp
  moreover from this
  have "\<not> (\<exists>h' r old. thash_put (\<lambda>k. k) (=) big_table 268435456 (7 :: 32 word) = ret (h', r, old) \<and>
                  thash_get (\<lambda>k. k) (=) h' 268435456 = ret (1, Some 7))"
    by (simp add: abort_def ret_def)
  moreover have "\<not> (nentries wit_table2 < 2 * (size_f wit_table2 + 1))"
    by (simp add: wit_table2_def)
  then have "\<exists>h' r old. thash_put (\<lambda>k. k) (=) wit_table2 21 210 = ret (h', r, old) \<and>
                thash_get (\<lambda>k. k) (=) h' 21 = ret (1, Some 210)"
    using put_then_get_overflow [OF wit_table2_wf wit_contract, of 21 210] by simp
  ultimately show ?thesis
    using big_table_wf wit_contract big_table_absent sz wit_table2_wf by blast
qed

text \<open>
  C3: \<^verbatim>\<open>create()\<close> returns a table of capacity 32 and size 0. Putting up to 16 pairs
  with pairwise unequal keys keeps the capacity at 32; the put of a 17th such pair leaves
  size 17 and capacity 128, and \<^verbatim>\<open>get\<close> then finds each of the 17 keys with its
  value.
\<close>

theorem create_and_first_growth:
  assumes ct: "contract hashf eqf"
    and len: "length kvs = 17"
    and dist: "pairwise_distinct eqf (map fst kvs)"
  shows "\<exists>h0 h16 h17.
           thash_create = ret h0 \<and> nentries h0 = 32 \<and> thash_size h0 = 0 \<and>
           (\<forall>m \<le> 16. \<exists>hm. put_all hashf eqf h0 (take m kvs) = ret hm \<and>
                          nentries hm = 32 \<and> thash_size hm = int m) \<and>
           put_all hashf eqf h0 (take 16 kvs) = ret h16 \<and>
           put_all hashf eqf h16 (drop 16 kvs) = ret h17 \<and>
           thash_size h17 = 17 \<and> nentries h17 = 128 \<and>
           (\<forall>kv \<in> set kvs. thash_get hashf eqf h17 (fst kv) = ret (1, Some (snd kv)))"
proof -
  let ?h0 = "empty_table 32 :: ('a, 'b) thash"
  have wf0: "well_formed hashf eqf ?h0" by (rule well_formed_empty_32)
  have pd: "pairwise_distinct eqf (map fst (take m kvs))" for m
    using pairwise_distinct_take [OF dist, of m] by (simp add: take_map)
  have pre: "\<exists>hm. put_all hashf eqf ?h0 (take m kvs) = ret hm \<and> well_formed hashf eqf hm \<and>
              nentries hm = 32 \<and> size_f hm = int m \<and> content (entries hm) = set (take m kvs)"
    if m: "m \<le> 16" for m
  proof -
    have "\<exists>h'. put_all hashf eqf ?h0 (take m kvs) = ret h' \<and> well_formed hashf eqf h' \<and>
              nentries h' = nentries ?h0 \<and> size_f h' = size_f ?h0 + int (length (take m kvs)) \<and>
              content (entries h') = content (entries ?h0) \<union> set (take m kvs)"
    proof (rule put_all_fresh [OF ct wf0 pd])
      show "\<forall>kv \<in> set (take m kvs). absent eqf (entries ?h0) (fst kv)" by simp
      show "2 * (size_f ?h0 + int (length (take m kvs))) \<le> nentries ?h0" using m len by simp
    qed
    then show ?thesis using m len by simp
  qed
  from pre [of 16] obtain h16 where h16:
    "put_all hashf eqf ?h0 (take 16 kvs) = ret h16" "well_formed hashf eqf h16"
    "nentries h16 = 32" "size_f h16 = 16" "content (entries h16) = set (take 16 kvs)"
    by auto
  obtain k v where last: "kvs ! 16 = (k, v)" by (cases "kvs ! 16")
  have "kvs ! 16 # drop (Suc 16) kvs = drop 16 kvs"
    using len by (intro Cons_nth_drop_Suc) simp
  then have dr: "drop 16 kvs = [(k, v)]" using len last by simp
  have split: "kvs = take 16 kvs @ [(k, v)]" using dr append_take_drop_id [of 16 kvs] by simp
  have "map fst kvs = map fst (take 16 kvs) @ [k]"
    by (subst split) simp
  then have "pairwise_distinct eqf (map fst (take 16 kvs) @ [k])" using dist by simp
  then have nl: "\<forall>k' \<in> set (map fst (take 16 kvs)). \<not> eqf k' k"
    by (rule pairwise_distinct_last)
  have fresh: "\<not> eqf k k'" if "k' \<in> fst ` set (take 16 kvs)" for k'
  proof
    assume "eqf k k'"
    then have "eqf k' k" by (rule contract_sym [OF ct])
    with nl that show False by auto
  qed
  have ab: "absent eqf (entries h16) k"
    using fresh h16(5) by (auto simp: absent_content)
  have bd: "nentries h16 < 2 * (size_f h16 + 1) \<longrightarrow> nentries h16 \<le> 2 ^ 28" using h16(3) by simp
  from thash_put_fresh [OF h16(2) ct ab bd, of v] h16(3,4) obtain h17 where h17:
    "thash_put hashf eqf h16 k v = ret (h17, 0, None)" "well_formed hashf eqf h17"
    "size_f h17 = 17" "content (entries h17) = insert (k, v) (content (entries h16))"
    "nentries h17 = 128"
    by auto
  have p17: "put_all hashf eqf h16 (drop 16 kvs) = ret h17" using h17(1) dr by simp
  have "set kvs = insert (k, v) (set (take 16 kvs))"
    by (subst split) simp
  then have c17: "content (entries h17) = set kvs" using h17(4) h16(5) by simp
  have get: "thash_get hashf eqf h17 (fst kv) = ret (1, Some (snd kv))" if "kv \<in> set kvs" for kv
  proof -
    have "(fst kv, snd kv) \<in> content (entries h17)" using that c17 by simp
    then show ?thesis using contract_refl [OF ct] by (intro thash_get_content [OF h17(2) ct])
  qed
  have all: "\<forall>m \<le> 16. \<exists>hm. put_all hashf eqf ?h0 (take m kvs) = ret hm \<and>
                          nentries hm = 32 \<and> thash_size hm = int m"
    using pre by (auto simp: thash_size_def)
  show ?thesis
    using thash_create_eq [where ?'k = 'a and ?'v = 'b] all h16(1) p17 h17(3,5) get
    by (intro exI [of _ ?h0] exI [of _ h16] exI [of _ h17]) (simp add: thash_size_def)
qed

theorem create_and_first_growth_witness:
  "contract (\<lambda>k :: 32 word. k) (=) \<and> length wit_pairs = 17 \<and>
   pairwise_distinct (=) (map fst wit_pairs) \<and>
   (\<exists>h0 h16 h17.
      thash_create = ret h0 \<and> nentries h0 = 32 \<and> thash_size h0 = 0 \<and>
      put_all (\<lambda>k. k) (=) h0 (take 16 wit_pairs) = ret h16 \<and>
      put_all (\<lambda>k. k) (=) h16 (drop 16 wit_pairs) = ret h17 \<and>
      thash_size h17 = 17 \<and> nentries h17 = 128 \<and>
      thash_get (\<lambda>k. k) (=) h17 16 = ret (1, Some 160))"
proof -
  have l: "length wit_pairs = 17" by (simp add: wit_pairs_def)
  have d: "pairwise_distinct (=) (map fst wit_pairs)" by (simp add: wit_pairs_def)
  from create_and_first_growth [OF wit_contract l d] obtain h0 h16 h17 where h:
    "thash_create = ret h0" "nentries h0 = 32" "thash_size h0 = 0"
    "put_all (\<lambda>k. k) (=) h0 (take 16 wit_pairs) = ret h16"
    "put_all (\<lambda>k. k) (=) h16 (drop 16 wit_pairs) = ret h17"
    "thash_size h17 = 17" "nentries h17 = 128"
    "\<forall>kv \<in> set wit_pairs. thash_get (\<lambda>k. k) (=) h17 (fst kv) = ret (1, Some (snd kv))"
    by blast
  have "(16, 160) \<in> set wit_pairs" by (simp add: wit_pairs_def)
  with h(8) have "thash_get (\<lambda>k. k) (=) h17 16 = ret (1, Some 160)" by fastforce
  with h(1-7) wit_contract l d show ?thesis by blast
qed

text \<open>
  C4: the put of an absent key into a well-formed table that makes
  \<^verbatim>\<open>nentries < 2 * size\<close> hold returns a table whose capacity is the one the growth-target
  formula gives for the size after the insertion, as long as the table has at most
  \<open>2^28\<close> slots. (The source passes that size plus one to \<^verbatim>\<open>create_capacity\<close>; on
  well-formed tables both give four times the old capacity.) On a larger table the
  computation of the new capacity overflows \<^verbatim>\<open>int\<close>: the capacity that the formula names
  is above \<^verbatim>\<open>INT_MAX\<close>, the doubling loop of \<^verbatim>\<open>create_capacity\<close> does not stop before it,
  and the put returns no table. The second theorem evaluates the put on a table of
  \<open>2^29\<close> slots holding \<open>2^28\<close> entries, where it fails, and on a full 8-slot table of 4
  entries, which grows to 32 slots.
\<close>

theorem growth_capacity_overflow:
  assumes wf: "well_formed hashf eqf h" and ct: "contract hashf eqf"
    and ab: "absent eqf (entries h) k"
    and tr: "nentries h < 2 * (thash_size h + 1)"
  shows "if 2 ^ 28 < nentries h
         then thash_put hashf eqf h k v = abort IntOverflow \<and>
              INT_MAX < spec_growth_target (thash_size h + 1)
         else (\<exists>h'. thash_put hashf eqf h k v = ret (h', 0, None) \<and>
                    thash_size h' = thash_size h + 1 \<and>
                    nentries h' = spec_growth_target (thash_size h'))"
proof (cases "2 ^ 28 < nentries h")
  case True
  from tr have tr': "nentries h < 2 * (size_f h + 1)" by (simp add: thash_size_def)
  have 1: "thash_put hashf eqf h k v = abort IntOverflow"
    by (rule thash_put_overflow [OF wf ab tr' True])
  from trigger_size [OF wf tr'] obtain j where
    j: "nentries h = 2 ^ j" "(2::int) ^ j = 2 * size_f h" by blast
  have "28 < j" using power_less_imp_less_exp [of "2::int" 28 j] True j(1) by simp
  then have "29 \<le> j" by simp
  then have "(2::int) ^ 29 \<le> 2 ^ j" by (intro power_increasing) simp_all
  then have s: "2 ^ 28 \<le> size_f h" using j(2) by simp
  have e1: "(2::int) ^ (j + 1) = 4 * size_f h" using j(2) by simp
  have e2: "(2::int) ^ (j + 2) = 8 * size_f h" using j(2) by simp
  have "spec_growth_target (size_f h + 1) = 2 ^ (j + 2)"
  proof (rule spec_growth_target_eq)
    show "3 \<le> j + 2" using \<open>29 \<le> j\<close> by simp
    show "4 * (size_f h + 1) \<le> 2 ^ (j + 2)" using e2 s by simp
    show "3 < j + 2 \<longrightarrow> 2 ^ (j + 2 - 1) < 4 * (size_f h + 1)" using e1 by simp
  qed
  then have "INT_MAX < spec_growth_target (size_f h + 1)"
    using e2 s by (simp add: INT_MAX_def)
  with 1 True show ?thesis by (simp add: thash_size_def)
next
  case False
  from tr have tr': "nentries h < 2 * (size_f h + 1)" by (simp add: thash_size_def)
  from False have bd: "nentries h \<le> 2 ^ 28" by simp
  from thash_put_grow [OF wf ct ab tr' bd, of v] False show ?thesis
    by (auto simp: thash_size_def)
qed

theorem growth_capacity_overflow_witness:
  "well_formed (\<lambda>k. k) (=) big_table \<and> contract (\<lambda>k :: 32 word. k) (=) \<and>
   absent (=) (entries big_table) 268435456 \<and>
   nentries big_table = 2 ^ 29 \<and> thash_size big_table = 2 ^ 28 \<and>
   thash_put (\<lambda>k. k) (=) big_table 268435456 (7 :: 32 word) = abort IntOverflow \<and>
   INT_MAX < spec_growth_target (2 ^ 28 + 1) \<and>
   \<not> (\<exists>h'. thash_put (\<lambda>k. k) (=) big_table 268435456 (7 :: 32 word) = ret (h', 0, None) \<and>
            nentries h' = spec_growth_target (thash_size h')) \<and>
   well_formed (\<lambda>k. k) (=) wit_table4 \<and> absent (=) (entries wit_table4) 4 \<and>
   nentries wit_table4 = 8 \<and> thash_size wit_table4 = 4 \<and>
   (\<exists>h'. thash_put (\<lambda>k. k) (=) wit_table4 4 14 = ret (h', 0, None) \<and>
         thash_size h' = 5 \<and> nentries h' = spec_growth_target 5 \<and> nentries h' = 32)"
proof -
  have sz: "nentries big_table = 2 ^ 29" "thash_size big_table = 2 ^ 28"
    by (simp_all add: big_table_def thash_size_def)
  have tr: "nentries big_table < 2 * (thash_size big_table + 1)"
    by (simp add: big_table_def thash_size_def)
  have b: "thash_put (\<lambda>k. k) (=) big_table 268435456 (7 :: 32 word) = abort IntOverflow \<and>
           INT_MAX < spec_growth_target (2 ^ 28 + 1)"
    using growth_capacity_overflow [OF big_table_wf wit_contract big_table_absent tr, of 7] sz
    by simp
  then have n: "\<not> (\<exists>h'. thash_put (\<lambda>k. k) (=) big_table 268435456 (7 :: 32 word) = ret (h', 0, None) \<and>
            nentries h' = spec_growth_target (thash_size h'))"
    by (simp add: abort_def ret_def)
  have sz4: "nentries wit_table4 = 8" "thash_size wit_table4 = 4"
    by (simp_all add: wit_table4_def thash_size_def)
  have tr4: "nentries wit_table4 < 2 * (thash_size wit_table4 + 1)"
    by (simp add: wit_table4_def thash_size_def)
  have g: "spec_growth_target 5 = 2 ^ 5" by (rule spec_growth_target_eq) simp_all
  from growth_capacity_overflow [OF wit_table4_wf wit_contract wit_table4_absent tr4, of 14] sz4
  obtain h' where "thash_put (\<lambda>k. k) (=) wit_table4 4 14 = ret (h', 0, None)"
    "thash_size h' = thash_size wit_table4 + 1" "nentries h' = spec_growth_target (thash_size h')"
    by auto
  then have "thash_put (\<lambda>k. k) (=) wit_table4 4 14 = ret (h', 0, None) \<and>
         thash_size h' = 5 \<and> nentries h' = spec_growth_target 5 \<and> nentries h' = 32"
    using g sz4 by simp
  then show ?thesis
    using big_table_wf wit_contract big_table_absent sz b n wit_table4_wf wit_table4_absent sz4
    by blast
qed

text \<open>
  C5: in a well-formed table whose slot \<open>i\<close> holds a key equal to \<open>k\<close>, \<^verbatim>\<open>put(k, v2)\<close>
  returns 1 with the pair that the slot held, leaves the size unchanged, and \<^verbatim>\<open>get(k)\<close>
  on the resulting table returns 1 with \<open>v2\<close>.
\<close>

theorem put_existing_key:
  assumes wf: "well_formed hashf eqf h" and ct: "contract hashf eqf"
    and i: "i < length (entries h)" "occupied (entries h ! i)" "eqf k (key (entries h ! i))"
  shows "\<exists>h'. thash_put hashf eqf h k v2 =
                 ret (h', 1, Some (key (entries h ! i), val (entries h ! i))) \<and>
              thash_size h' = thash_size h \<and>
              thash_get hashf eqf h' k = ret (1, Some v2)"
proof -
  let ?h' = "h\<lparr>entries := (entries h)[i := (entries h ! i)\<lparr>key := k, val := v2\<rparr>]\<rparr>"
  from thash_put_present [OF wf ct i, of v2] have p:
    "thash_put hashf eqf h k v2 = ret (?h', 1, Some (key (entries h ! i), val (entries h ! i)))"
    "well_formed hashf eqf ?h'"
    by simp_all
  have "thash_get hashf eqf ?h' k = ret (1, Some (val (entries ?h' ! i)))"
    using i(1,2) contract_refl [OF ct] by (intro thash_get_found [OF p(2) ct]) simp_all
  then have "thash_get hashf eqf ?h' k = ret (1, Some v2)" using i(1) by simp
  with p(1) show ?thesis by (intro exI [of _ ?h']) (simp add: thash_size_def)
qed

theorem put_existing_key_witness:
  "well_formed (\<lambda>k. k) (=) wit_table2 \<and> contract (\<lambda>k :: 32 word. k) (=) \<and>
   (6::nat) < length (entries wit_table2) \<and> occupied (entries wit_table2 ! 6) \<and>
   (13 :: 32 word) = key (entries wit_table2 ! 6) \<and>
   (\<exists>h'. thash_put (\<lambda>k. k) (=) wit_table2 13 7 = ret (h', 1, Some (13, 130)) \<and>
         thash_size h' = 2 \<and> thash_get (\<lambda>k. k) (=) h' 13 = ret (1, Some 7))"
proof -
  have i: "(6::nat) < length (entries wit_table2)" "occupied (entries wit_table2 ! 6)"
    "(13 :: 32 word) = key (entries wit_table2 ! 6)"
    by (simp_all add: wit_table2_def occupied_def)
  from put_existing_key [OF wit_table2_wf wit_contract i, of 7] obtain h' where
    "thash_put (\<lambda>k. k) (=) wit_table2 13 7 =
       ret (h', 1, Some (key (entries wit_table2 ! 6), val (entries wit_table2 ! 6)))"
    "thash_size h' = thash_size wit_table2" "thash_get (\<lambda>k. k) (=) h' 13 = ret (1, Some 7)"
    by blast
  then have "thash_put (\<lambda>k. k) (=) wit_table2 13 7 = ret (h', 1, Some (13, 130)) \<and>
         thash_size h' = 2 \<and> thash_get (\<lambda>k. k) (=) h' 13 = ret (1, Some 7)"
    by (simp add: wit_table2_def thash_size_def)
  then show ?thesis using wit_table2_wf wit_contract i by blast
qed

text \<open>
  C6: in a table whose capacity is a power of two and is the length of the entry array, whose
  \<^verbatim>\<open>size\<close> counts the occupied slots and is less than the capacity, the linear-probe scan
  shared by \<^verbatim>\<open>get\<close>, \<^verbatim>\<open>get_volatile\<close>, \<^verbatim>\<open>put\<close> and \<^verbatim>\<open>remove\<close>, started at
  \<^verbatim>\<open>code & (nentries - 1)\<close>, returns; it ends inside the array, either at an occupied slot
  whose key equals the searched key or at an empty slot.
\<close>

theorem probe_terminates:
  assumes "table_ok h"
    and "size_f h = int (occupancy (entries h))"
    and "size_f h < nentries h"
  shows "\<exists>w. probe eqf h k (hashf k AND word_of_int (nentries h - 1)) =
               ret (w, occupied (entries h ! unat w)) \<and>
             unat w < length (entries h) \<and>
             (occupied (entries h ! unat w) \<longrightarrow> eqf k (key (entries h ! unat w)))"
proof -
  let ?n = "length (entries h)"
  let ?idx = "hashf k AND word_of_int (nentries h - 1)"
  have n: "0 < ?n" using assms(1) by (rule table_ok_length_pos)
  have "occupancy (entries h) < ?n"
    using assms by (simp add: table_ok_def)
  then obtain e where e: "e < ?n" "\<not> occupied (entries h ! e)"
    using exists_empty by blast
  have s: "unat ?idx < ?n" using home_less [OF assms(1)] by (simp only: home_idx)
  from probe_total [OF assms(1) s e, of eqf k] obtain w d where
    "probe eqf h k ?idx = ret (w, occupied (entries h ! coff ?n (unat ?idx) d))"
    "unat w = coff ?n (unat ?idx) d"
    "occupied (entries h ! coff ?n (unat ?idx) d) \<longrightarrow>
       eqf k (key (entries h ! coff ?n (unat ?idx) d))"
    by blast
  moreover from this have "unat w < ?n" using n by simp
  ultimately show ?thesis by metis
qed

theorem probe_terminates_witness:
  "table_ok wit_table \<and> size_f wit_table = int (occupancy (entries wit_table)) \<and>
   size_f wit_table < nentries wit_table \<and>
   (\<exists>w. probe (=) wit_table 13 ((\<lambda>k. k) 13 AND word_of_int (nentries wit_table - 1)) =
               ret (w, occupied (entries wit_table ! unat w)) \<and>
             unat w < length (entries wit_table) \<and>
             (occupied (entries wit_table ! unat w) \<longrightarrow> 13 = key (entries wit_table ! unat w)))"
proof -
  have a: "table_ok wit_table"
    by (simp add: table_ok_def cap_ok_def wit_table_def)
  have b: "size_f wit_table = int (occupancy (entries wit_table))"
    by (simp add: wit_table_def occupancy_def occupied_def zero_entry_def)
  have c: "size_f wit_table < nentries wit_table"
    by (simp add: wit_table_def)
  from probe_terminates [OF a b c, of "(=)" 13 "\<lambda>k. k"] a b c show ?thesis by simp
qed

text \<open>
  C7: on a well-formed table no operation stops at an \<^verbatim>\<open>assert\<close>: \<^verbatim>\<open>put\<close> and
  \<^verbatim>\<open>copy\<close> return or stop with a signed overflow in \<^verbatim>\<open>create_capacity\<close>, before any
  reinsertion; \<^verbatim>\<open>remove\<close> returns; \<^verbatim>\<open>iterator_remove\<close> at an occupied slot returns.
  In the model a reinsertion that finds a matching key gives \<open>abort AssertFailed\<close>, so
  every reinsertion of the rehash, of the loops of \<^verbatim>\<open>remove\<close> and \<^verbatim>\<open>iterator_remove\<close>
  and of \<^verbatim>\<open>copy\<close> ends at an empty slot.
\<close>

theorem no_assert_failure:
  assumes wf: "well_formed hashf eqf h" and ct: "contract hashf eqf"
  shows "((\<exists>x. thash_put hashf eqf h k v = ret x) \<or> thash_put hashf eqf h k v = abort IntOverflow) \<and>
         (\<exists>x. thash_remove hashf eqf h k = ret x) \<and>
         ((\<exists>x. thash_copy hashf eqf h = ret x) \<or> thash_copy hashf eqf h = abort IntOverflow) \<and>
         (\<forall>last_entry. 0 \<le> last_entry \<and> nat last_entry < length (entries h) \<and>
              occupied (entries h ! nat last_entry) \<longrightarrow>
              (\<exists>x. thash_iterator_remove hashf eqf h last_entry = ret x)) \<and>
         thash_put hashf eqf h k v \<noteq> abort AssertFailed \<and>
         thash_remove hashf eqf h k \<noteq> abort AssertFailed \<and>
         thash_copy hashf eqf h \<noteq> abort AssertFailed \<and>
         (\<forall>last_entry. 0 \<le> last_entry \<and> nat last_entry < length (entries h) \<and>
              occupied (entries h ! nat last_entry) \<longrightarrow>
              thash_iterator_remove hashf eqf h last_entry \<noteq> abort AssertFailed)"
proof -
  from wf have ok: "table_ok h" by (simp add: well_formed_def)
  have put: "(\<exists>x. thash_put hashf eqf h k v = ret x) \<or> thash_put hashf eqf h k v = abort IntOverflow"
  proof (cases "absent eqf (entries h) k")
    case True
    show ?thesis
    proof (cases "nentries h < 2 * (size_f h + 1) \<and> 2 ^ 28 < nentries h")
      case True
      then have "thash_put hashf eqf h k v = abort IntOverflow"
        using thash_put_overflow [OF wf \<open>absent eqf (entries h) k\<close>] by blast
      then show ?thesis by simp
    next
      case False
      then have "nentries h < 2 * (size_f h + 1) \<longrightarrow> nentries h \<le> 2 ^ 28" by auto
      from thash_put_fresh [OF wf ct True this, of v] show ?thesis by blast
    qed
  next
    case False
    from not_absent [OF False] obtain i where
      "i < length (entries h)" "occupied (entries h ! i)" "eqf k (key (entries h ! i))" by blast
    from thash_put_present [OF wf ct this, of v] show ?thesis by blast
  qed
  have rem: "\<exists>x. thash_remove hashf eqf h k = ret x"
  proof (cases "absent eqf (entries h) k")
    case True
    from well_formed_empty_slot [OF wf] obtain e where
      "e < length (entries h)" "\<not> occupied (entries h ! e)" by blast
    from thash_remove_absent [OF ok True this, of hashf] show ?thesis by blast
  next
    case False
    from not_absent [OF False] obtain i where
      "i < length (entries h)" "occupied (entries h ! i)" "eqf k (key (entries h ! i))" by blast
    from thash_remove_present [OF wf ct this] show ?thesis by blast
  qed
  have cp: "(\<exists>x. thash_copy hashf eqf h = ret x) \<or> thash_copy hashf eqf h = abort IntOverflow"
  proof (cases "size_f h \<le> 2 ^ 28")
    case True
    from thash_copy_ok [OF wf ct True] show ?thesis by blast
  next
    case False
    then have "2 ^ 28 < size_f h" by simp
    then show ?thesis using thash_copy_overflow by blast
  qed
  have it: "\<exists>x. thash_iterator_remove hashf eqf h last_entry = ret x"
    if "0 \<le> last_entry \<and> nat last_entry < length (entries h) \<and> occupied (entries h ! nat last_entry)"
    for last_entry
    using thash_iterator_remove_ok [OF wf ct, of last_entry] that by blast
  have a1: "thash_put hashf eqf h k v \<noteq> abort AssertFailed"
    using put by (auto simp: abort_def ret_def)
  have a2: "thash_remove hashf eqf h k \<noteq> abort AssertFailed"
    using rem by (auto simp: abort_def ret_def)
  have a3: "thash_copy hashf eqf h \<noteq> abort AssertFailed"
    using cp by (auto simp: abort_def ret_def)
  have a4: "thash_iterator_remove hashf eqf h last_entry \<noteq> abort AssertFailed"
    if "0 \<le> last_entry \<and> nat last_entry < length (entries h) \<and> occupied (entries h ! nat last_entry)"
    for last_entry
    using it [OF that] by (auto simp: abort_def ret_def)
  from put rem cp it a1 a2 a3 a4 show ?thesis by blast
qed

theorem no_assert_failure_witness:
  "well_formed (\<lambda>k. k) (=) wit_table2 \<and> contract (\<lambda>k :: 32 word. k) (=) \<and>
   (\<exists>x. thash_put (\<lambda>k. k) (=) wit_table2 21 210 = ret x) \<and>
   (\<exists>x. thash_remove (\<lambda>k. k) (=) wit_table2 5 = ret x) \<and>
   (\<exists>x. thash_copy (\<lambda>k. k) (=) wit_table2 = ret x) \<and>
   (0::int) \<le> 5 \<and> nat 5 < length (entries wit_table2) \<and> occupied (entries wit_table2 ! nat 5) \<and>
   (\<exists>x. thash_iterator_remove (\<lambda>k. k) (=) wit_table2 5 = ret x)"
proof -
  note t = no_assert_failure [OF wit_table2_wf wit_contract, of 21 210]
  note u = no_assert_failure [OF wit_table2_wf wit_contract, of 5 0]
  have i: "(0::int) \<le> 5 \<and> nat 5 < length (entries wit_table2) \<and> occupied (entries wit_table2 ! nat 5)"
    by (simp add: wit_table2_def occupied_def)
  have "nentries wit_table2 < 2 * (size_f wit_table2 + 1) \<longrightarrow> nentries wit_table2 \<le> 2 ^ 28"
    by (simp add: wit_table2_def)
  from thash_put_fresh [OF wit_table2_wf wit_contract wit_table2_absent this, of 210]
  have p: "\<exists>x. thash_put (\<lambda>k. k) (=) wit_table2 21 210 = ret x" by blast
  have r: "\<exists>x. thash_remove (\<lambda>k. k) (=) wit_table2 5 = ret x" using u by blast
  have "size_f wit_table2 \<le> 2 ^ 28" by (simp add: wit_table2_def)
  from thash_copy_ok [OF wit_table2_wf wit_contract this]
  have c: "\<exists>x. thash_copy (\<lambda>k. k) (=) wit_table2 = ret x" by blast
  have it: "\<exists>x. thash_iterator_remove (\<lambda>k. k) (=) wit_table2 5 = ret x" using t i by blast
  from wit_table2_wf wit_contract p r c i it show ?thesis by blast
qed

text \<open>
  C8: every table that an operation returns is well formed; in particular its capacity is
  a power of two, at least 8, and at least twice its size (\<open>load_inv\<close>). This holds for
  \<^verbatim>\<open>create_capacity\<close> at every argument, for \<^verbatim>\<open>create\<close>, and on a well-formed table for
  \<^verbatim>\<open>put\<close>, \<^verbatim>\<open>remove\<close>, \<^verbatim>\<open>clear\<close>, \<^verbatim>\<open>copy\<close> and for \<^verbatim>\<open>iterator_remove\<close> at the
  cursor that a successful \<^verbatim>\<open>iterator_next\<close> left. \<^verbatim>\<open>remove\<close>, \<^verbatim>\<open>clear\<close> and
  \<^verbatim>\<open>iterator_remove\<close> always return and keep the capacity; \<^verbatim>\<open>put\<close> changes it only
  when it inserted a new key and \<^verbatim>\<open>nentries < 2 * size\<close> held after the insertion.
  \<^verbatim>\<open>put\<close> returns when the capacity is at most \<open>2^28\<close>, \<^verbatim>\<open>copy\<close> when the size is.
\<close>

theorem invariant_preserved:
  fixes h :: "('k::zero, 'v::zero) thash"
  assumes wf: "well_formed hashf eqf h" and ct: "contract hashf eqf"
  shows "(\<forall>capacity (h0 :: ('k, 'v) thash). thash_create_capacity capacity = ret h0 \<longrightarrow>
            well_formed hashf eqf h0 \<and> load_inv h0) \<and>
         (\<exists>h0 :: ('k, 'v) thash. thash_create = ret h0 \<and> well_formed hashf eqf h0 \<and> load_inv h0) \<and>
         (\<forall>k v h' r old. thash_put hashf eqf h k v = ret (h', r, old) \<longrightarrow>
            well_formed hashf eqf h' \<and> load_inv h' \<and>
            (nentries h' \<noteq> nentries h \<longrightarrow> r = 0 \<and> nentries h < 2 * (size_f h + 1))) \<and>
         (\<forall>k v. nentries h \<le> 2 ^ 28 \<longrightarrow> (\<exists>x. thash_put hashf eqf h k v = ret x)) \<and>
         (\<forall>k. \<exists>h' r old. thash_remove hashf eqf h k = ret (h', r, old) \<and>
            well_formed hashf eqf h' \<and> load_inv h' \<and> nentries h' = nentries h) \<and>
         (\<exists>h'. thash_clear h = ret h' \<and>
            well_formed hashf eqf h' \<and> load_inv h' \<and> nentries h' = nentries h) \<and>
         (\<forall>h'. thash_copy hashf eqf h = ret h' \<longrightarrow> well_formed hashf eqf h' \<and> load_inv h') \<and>
         (size_f h \<le> 2 ^ 28 \<longrightarrow> (\<exists>h'. thash_copy hashf eqf h = ret h')) \<and>
         (\<forall>last_entry le out. thash_iterator_next h last_entry = ret (le, 1, out) \<longrightarrow>
            (\<exists>h'. thash_iterator_remove hashf eqf h le = ret h' \<and>
               well_formed hashf eqf h' \<and> load_inv h' \<and> nentries h' = nentries h))"
proof -
  from wf have ok: "table_ok h" by (simp add: well_formed_def)
  have c1: "well_formed hashf eqf h0 \<and> load_inv h0"
    if "thash_create_capacity capacity = ret h0" for capacity and h0 :: "('k, 'v) thash"
  proof -
    from thash_create_capacity_cases [of capacity, where ?'k = 'k and ?'v = 'v] that
    obtain j where "3 \<le> j" "j \<le> 30" "h0 = empty_table (2 ^ j)" by auto
    then have "well_formed hashf eqf h0" using well_formed_empty_table by blast
    then show ?thesis using well_formed_load_inv by blast
  qed
  have c2: "\<exists>h0 :: ('k, 'v) thash. thash_create = ret h0 \<and> well_formed hashf eqf h0 \<and> load_inv h0"
    using thash_create_eq well_formed_empty_32 well_formed_load_inv by blast
  have c3: "well_formed hashf eqf h' \<and> load_inv h' \<and>
            (nentries h' \<noteq> nentries h \<longrightarrow> r = 0 \<and> nentries h < 2 * (size_f h + 1))"
    if p: "thash_put hashf eqf h k v = ret (h', r, old)" for k v h' r old
  proof (cases "absent eqf (entries h) k")
    case True
    show ?thesis
    proof (cases "nentries h < 2 * (size_f h + 1) \<and> 2 ^ 28 < nentries h")
      case True
      then have "thash_put hashf eqf h k v = abort IntOverflow"
        using thash_put_overflow [OF wf \<open>absent eqf (entries h) k\<close>] by blast
      with p show ?thesis by simp
    next
      case False
      then have "nentries h < 2 * (size_f h + 1) \<longrightarrow> nentries h \<le> 2 ^ 28" by auto
      from thash_put_fresh [OF wf ct True this, of v] p
      have "well_formed hashf eqf h'" "r = 0"
        "nentries h' = (if nentries h < 2 * (size_f h + 1) then spec_growth_target (size_f h + 1)
                        else nentries h)"
        by auto
      then show ?thesis using well_formed_load_inv [of hashf eqf h'] by (auto split: if_splits)
    qed
  next
    case False
    from not_absent [OF False] obtain i where
      "i < length (entries h)" "occupied (entries h ! i)" "eqf k (key (entries h ! i))" by blast
    from thash_put_present [OF wf ct this, of v] p
    have "well_formed hashf eqf h'" "nentries h' = nentries h" by auto
    then show ?thesis using well_formed_load_inv [of hashf eqf h'] by simp
  qed
  have c4: "\<exists>x. thash_put hashf eqf h k v = ret x" if "nentries h \<le> 2 ^ 28" for k v
  proof (cases "absent eqf (entries h) k")
    case True
    from that have "nentries h < 2 * (size_f h + 1) \<longrightarrow> nentries h \<le> 2 ^ 28" by simp
    from thash_put_fresh [OF wf ct True this, of v] show ?thesis by blast
  next
    case False
    from not_absent [OF False] obtain i where
      "i < length (entries h)" "occupied (entries h ! i)" "eqf k (key (entries h ! i))" by blast
    from thash_put_present [OF wf ct this, of v] show ?thesis by blast
  qed
  have c5: "\<exists>h' r old. thash_remove hashf eqf h k = ret (h', r, old) \<and>
            well_formed hashf eqf h' \<and> load_inv h' \<and> nentries h' = nentries h" for k
  proof (cases "absent eqf (entries h) k")
    case True
    from well_formed_empty_slot [OF wf] obtain e where
      "e < length (entries h)" "\<not> occupied (entries h ! e)" by blast
    from thash_remove_absent [OF ok True this, of hashf] wf well_formed_load_inv [OF wf]
    show ?thesis by blast
  next
    case False
    from not_absent [OF False] obtain i where
      "i < length (entries h)" "occupied (entries h ! i)" "eqf k (key (entries h ! i))" by blast
    from thash_remove_present [OF wf ct this] obtain h' where
      "thash_remove hashf eqf h k = ret (h', 1, Some (key (entries h ! i), val (entries h ! i)))"
      "well_formed hashf eqf h'" "nentries h' = nentries h" by blast
    then show ?thesis using well_formed_load_inv [of hashf eqf h'] by blast
  qed
  have c6: "\<exists>h'. thash_clear h = ret h' \<and>
            well_formed hashf eqf h' \<and> load_inv h' \<and> nentries h' = nentries h"
    using thash_clear_ok [OF wf] well_formed_load_inv by blast
  have c7: "well_formed hashf eqf h' \<and> load_inv h'" if cp: "thash_copy hashf eqf h = ret h'" for h'
  proof (cases "size_f h \<le> 2 ^ 28")
    case True
    from thash_copy_ok [OF wf ct True] cp have "well_formed hashf eqf h'" by auto
    then show ?thesis using well_formed_load_inv by blast
  next
    case False
    then have "2 ^ 28 < size_f h" by simp
    from thash_copy_overflow [OF this, of hashf eqf] cp show ?thesis by simp
  qed
  have c8: "\<exists>h'. thash_copy hashf eqf h = ret h'" if "size_f h \<le> 2 ^ 28"
    using thash_copy_ok [OF wf ct that] by blast
  have c9: "\<exists>h'. thash_iterator_remove hashf eqf h le = ret h' \<and>
               well_formed hashf eqf h' \<and> load_inv h' \<and> nentries h' = nentries h"
    if "thash_iterator_next h last_entry = ret (le, 1, out)" for last_entry le out
  proof -
    from thash_iterator_next_found [OF that]
    have "0 \<le> le" "nat le < length (entries h)" "occupied (entries h ! nat le)" by simp_all
    from thash_iterator_remove_ok [OF wf ct this] obtain h' where
      "thash_iterator_remove hashf eqf h le = ret h'" "well_formed hashf eqf h'"
      "nentries h' = nentries h" by blast
    then show ?thesis using well_formed_load_inv [of hashf eqf h'] by blast
  qed
  have g1: "\<forall>capacity (h0 :: ('k, 'v) thash). thash_create_capacity capacity = ret h0 \<longrightarrow>
            well_formed hashf eqf h0 \<and> load_inv h0"
    using c1 by blast
  have g3: "\<forall>k v h' r old. thash_put hashf eqf h k v = ret (h', r, old) \<longrightarrow>
            well_formed hashf eqf h' \<and> load_inv h' \<and>
            (nentries h' \<noteq> nentries h \<longrightarrow> r = 0 \<and> nentries h < 2 * (size_f h + 1))"
    using c3 by blast
  have g4: "\<forall>k v. nentries h \<le> 2 ^ 28 \<longrightarrow> (\<exists>x. thash_put hashf eqf h k v = ret x)"
    using c4 by blast
  have g5: "\<forall>k. \<exists>h' r old. thash_remove hashf eqf h k = ret (h', r, old) \<and>
            well_formed hashf eqf h' \<and> load_inv h' \<and> nentries h' = nentries h"
    using c5 by blast
  have g7: "\<forall>h'. thash_copy hashf eqf h = ret h' \<longrightarrow> well_formed hashf eqf h' \<and> load_inv h'"
    using c7 by blast
  have g8: "size_f h \<le> 2 ^ 28 \<longrightarrow> (\<exists>h'. thash_copy hashf eqf h = ret h')"
    using c8 by blast
  have g9: "\<forall>last_entry le out. thash_iterator_next h last_entry = ret (le, 1, out) \<longrightarrow>
            (\<exists>h'. thash_iterator_remove hashf eqf h le = ret h' \<and>
               well_formed hashf eqf h' \<and> load_inv h' \<and> nentries h' = nentries h)"
    using c9 by blast
  show ?thesis
    by (intro conjI) (rule g1, rule c2, rule g3, rule g4, rule g5, rule c6, rule g7, rule g8, rule g9)
qed

theorem invariant_preserved_witness:
  "well_formed (\<lambda>k. k) (=) wit_table2 \<and> contract (\<lambda>k :: 32 word. k) (=) \<and>
   (\<exists>h0 :: (32 word, 32 word) thash. thash_create_capacity 3 = ret h0 \<and>
       well_formed (\<lambda>k. k) (=) h0 \<and> load_inv h0) \<and>
   (\<exists>h' r old. thash_put (\<lambda>k. k) (=) wit_table2 21 210 = ret (h', r, old) \<and>
       well_formed (\<lambda>k. k) (=) h' \<and> load_inv h') \<and>
   (\<exists>h' r old. thash_remove (\<lambda>k. k) (=) wit_table2 5 = ret (h', r, old) \<and>
       well_formed (\<lambda>k. k) (=) h' \<and> load_inv h' \<and> nentries h' = 8) \<and>
   (\<exists>h'. thash_clear wit_table2 = ret h' \<and>
       well_formed (\<lambda>k. k) (=) h' \<and> load_inv h' \<and> nentries h' = 8) \<and>
   (\<exists>h'. thash_copy (\<lambda>k. k) (=) wit_table2 = ret h' \<and>
       well_formed (\<lambda>k. k) (=) h' \<and> load_inv h') \<and>
   thash_iterator_next wit_table2 thash_iterator_init = ret (5, 1, Some (5, 50)) \<and>
   (\<exists>h'. thash_iterator_remove (\<lambda>k. k) (=) wit_table2 5 = ret h' \<and>
       well_formed (\<lambda>k. k) (=) h' \<and> load_inv h' \<and> nentries h' = 8)"
proof -
  note t = invariant_preserved [OF wit_table2_wf wit_contract]
  note t1 = t [THEN conjunct1]
  note t3 = t [THEN conjunct2, THEN conjunct2, THEN conjunct1]
  note t4 = t [THEN conjunct2, THEN conjunct2, THEN conjunct2, THEN conjunct1]
  note t5 = t [THEN conjunct2, THEN conjunct2, THEN conjunct2, THEN conjunct2, THEN conjunct1]
  note t6 = t [THEN conjunct2, THEN conjunct2, THEN conjunct2, THEN conjunct2, THEN conjunct2,
      THEN conjunct1]
  note t7 = t [THEN conjunct2, THEN conjunct2, THEN conjunct2, THEN conjunct2, THEN conjunct2,
      THEN conjunct2, THEN conjunct1]
  note t8 = t [THEN conjunct2, THEN conjunct2, THEN conjunct2, THEN conjunct2, THEN conjunct2,
      THEN conjunct2, THEN conjunct2, THEN conjunct1]
  note t9 = t [THEN conjunct2, THEN conjunct2, THEN conjunct2, THEN conjunct2, THEN conjunct2,
      THEN conjunct2, THEN conjunct2, THEN conjunct2]
  have n8: "nentries wit_table2 = 8" by (simp add: wit_table2_def)
  have c: "\<exists>h0 :: (32 word, 32 word) thash. thash_create_capacity 3 = ret h0 \<and>
       well_formed (\<lambda>k. k) (=) h0 \<and> load_inv h0"
  proof -
    from thash_create_capacity_ok [of 3, where ?'k = "32 word" and ?'v = "32 word"]
    obtain h0 :: "(32 word, 32 word) thash" where "thash_create_capacity 3 = ret h0" by auto
    with t1 show ?thesis by blast
  qed
  have p: "\<exists>h' r old. thash_put (\<lambda>k. k) (=) wit_table2 21 210 = ret (h', r, old) \<and>
       well_formed (\<lambda>k. k) (=) h' \<and> load_inv h'"
  proof -
    have "nentries wit_table2 \<le> 2 ^ 28" by (simp add: n8)
    with t4 obtain x where "thash_put (\<lambda>k. k) (=) wit_table2 21 210 = ret x" by blast
    then obtain h' r old where "thash_put (\<lambda>k. k) (=) wit_table2 21 210 = ret (h', r, old)"
      by (cases x) auto
    with t3 show ?thesis by blast
  qed
  have r: "\<exists>h' r old. thash_remove (\<lambda>k. k) (=) wit_table2 5 = ret (h', r, old) \<and>
       well_formed (\<lambda>k. k) (=) h' \<and> load_inv h' \<and> nentries h' = 8"
    using t5 [rule_format, of 5] n8 by simp
  have cl: "\<exists>h'. thash_clear wit_table2 = ret h' \<and>
       well_formed (\<lambda>k. k) (=) h' \<and> load_inv h' \<and> nentries h' = 8"
    using t6 n8 by simp
  have cp: "\<exists>h'. thash_copy (\<lambda>k. k) (=) wit_table2 = ret h' \<and>
       well_formed (\<lambda>k. k) (=) h' \<and> load_inv h'"
  proof -
    have "size_f wit_table2 \<le> 2 ^ 28" by (simp add: wit_table2_def)
    with t8 obtain h' where "thash_copy (\<lambda>k. k) (=) wit_table2 = ret h'" by blast
    with t7 show ?thesis by blast
  qed
  have len: "int (length (entries wit_table2)) = nentries wit_table2"
    by (simp add: wit_table2_def)
  have f: "filter (\<lambda>i. occupied (entries wit_table2 ! i)) [0..<length (entries wit_table2)] = [5, 6]"
    by (simp add: wit_table2_def occupied_def zero_entry_def upt_rec)
  have nx: "thash_iterator_next wit_table2 thash_iterator_init = ret (5, 1, Some (5, 50))"
    using thash_iterator_next_scan [OF len, of 0] unfolding f
    by (simp add: thash_iterator_init_def wit_table2_def)
  have ir: "\<exists>h'. thash_iterator_remove (\<lambda>k. k) (=) wit_table2 5 = ret h' \<and>
       well_formed (\<lambda>k. k) (=) h' \<and> load_inv h' \<and> nentries h' = 8"
    using t9 [rule_format, OF nx [unfolded thash_iterator_init_def]] n8 by simp
  show ?thesis
    by (intro conjI) (rule wit_table2_wf, rule wit_contract, rule c, rule p, rule r, rule cl,
      rule cp, rule nx, rule ir)
qed

text \<open>
  C9: in a table whose capacity is a power of two and the length of the entry array, whose
  size counts the occupied slots and is less than the capacity, and for a key equal to no
  stored key, \<^verbatim>\<open>get\<close> returns 0 and \<^verbatim>\<open>remove\<close> returns 0 with the table it was given:
  the same entries, size and capacity. (\<^verbatim>\<open>get\<close> writes nothing to the table at all.)
\<close>

theorem not_found_unchanged:
  assumes ok: "table_ok h"
    and sz: "size_f h = int (occupancy (entries h))"
    and lt: "size_f h < nentries h"
    and ab: "absent eqf (entries h) k"
  shows "thash_get hashf eqf h k = ret (0, None) \<and>
         thash_remove hashf eqf h k = ret (h, 0, None)"
proof -
  have "occupancy (entries h) < length (entries h)"
    using ok sz lt by (simp add: table_ok_def)
  then obtain e where e: "e < length (entries h)" "\<not> occupied (entries h ! e)"
    using exists_empty by blast
  from thash_get_absent [OF ok ab e] thash_remove_absent [OF ok ab e] show ?thesis by simp
qed

theorem not_found_unchanged_witness:
  "table_ok wit_table2 \<and> size_f wit_table2 = int (occupancy (entries wit_table2)) \<and>
   size_f wit_table2 < nentries wit_table2 \<and> absent (=) (entries wit_table2) 21 \<and>
   thash_get (\<lambda>k. k) (=) wit_table2 21 = ret (0, None) \<and>
   thash_remove (\<lambda>k. k) (=) wit_table2 21 = ret (wit_table2, 0, None)"
proof -
  have a: "table_ok wit_table2" "size_f wit_table2 = int (occupancy (entries wit_table2))"
    using wit_table2_wf by (simp_all add: well_formed_def)
  have b: "size_f wit_table2 < nentries wit_table2" by (simp add: wit_table2_def)
  from not_found_unchanged [OF a b wit_table2_absent, of "\<lambda>k. k"] a b wit_table2_absent
  show ?thesis by blast
qed

text \<open>
  C10: on a table whose capacity is the length of its entry array, \<open>n\<close> successive
  calls of \<^verbatim>\<open>iterator_next\<close> after \<^verbatim>\<open>iterator_init\<close> return 1 with the key and value of
  the occupied slots, in increasing order of slot index, each once, the cursor being that
  index; once these are exhausted every call returns 0. The list of occupied indices is
  strictly increasing and holds exactly the occupied slots.
\<close>

theorem iterator_visits_occupied:
  assumes len: "int (length (entries h)) = nentries h"
  shows "iterator_calls h thash_iterator_init n =
           ret (map (\<lambda>i. (int i, 1, Some (key (entries h ! i), val (entries h ! i))))
                  (take n (filter (\<lambda>i. occupied (entries h ! i)) [0..<length (entries h)])) @
                replicate (n - length (filter (\<lambda>i. occupied (entries h ! i)) [0..<length (entries h)]))
                  (nentries h - 1, 0, None)) \<and>
         sorted_wrt (<) (filter (\<lambda>i. occupied (entries h ! i)) [0..<length (entries h)]) \<and>
         set (filter (\<lambda>i. occupied (entries h ! i)) [0..<length (entries h)]) =
           {i. i < length (entries h) \<and> occupied (entries h ! i)}"
proof -
  have "iterator_calls h (int 0 - 1) n =
           ret (map (\<lambda>i. (int i, 1, Some (key (entries h ! i), val (entries h ! i))))
                  (take n (filter (\<lambda>i. occupied (entries h ! i)) [0..<length (entries h)])) @
                replicate (n - length (filter (\<lambda>i. occupied (entries h ! i)) [0..<length (entries h)]))
                  (nentries h - 1, 0, None))"
    by (rule iterator_calls_scan [OF len]) simp
  moreover have "sorted_wrt (<) (filter (\<lambda>i. occupied (entries h ! i)) [0..<length (entries h)])"
    by (rule sorted_wrt_filter) (simp add: sorted_wrt_upt)
  ultimately show ?thesis by (auto simp: thash_iterator_init_def)
qed

theorem iterator_visits_occupied_witness:
  "int (length (entries wit_table2)) = nentries wit_table2 \<and>
   iterator_calls wit_table2 thash_iterator_init 4 =
     ret [(5, 1, Some (5, 50)), (6, 1, Some (13, 130)), (7, 0, None), (7, 0, None)]"
proof -
  have len: "int (length (entries wit_table2)) = nentries wit_table2"
    by (simp add: wit_table2_def)
  have f: "filter (\<lambda>i. occupied (entries wit_table2 ! i)) [0..<length (entries wit_table2)] = [5, 6]"
    by (simp add: wit_table2_def occupied_def zero_entry_def upt_rec)
  from iterator_visits_occupied [OF len, of 4, THEN conjunct1]
  have "iterator_calls wit_table2 thash_iterator_init 4 =
     ret [(5, 1, Some (5, 50)), (6, 1, Some (13, 130)), (7, 0, None), (7, 0, None)]"
    unfolding f by (simp add: wit_table2_def eval_nat_numeral)
  with len show ?thesis by simp
qed

end
